theory Spec2Isabelle
  imports Main "HOL-Library.Word"
begin

section \<open>Constants of websockets/connection.go\<close>

text \<open>
  Times and durations are nanosecond counts, as Go's \<^verbatim>\<open>time.Duration\<close> is; the
  reading of \<^verbatim>\<open>time.Now()\<close> is an input of every operation that takes one.
\<close>

type_synonym time = int

type_synonym bytes = "8 word list"

definition time_Second :: int where
  "time_Second = 1000000000"

definition writeWait :: int where
  "writeWait = 5 * time_Second"

definition pongWait :: int where
  "pongWait = 10 * time_Second"

definition pingPeriod :: int where
  "pingPeriod = (pongWait * 9) div 10"

definition maxMessageSize :: int where
  "maxMessageSize = 8192"

section \<open>Go channels and select\<close>

text \<open>
  A channel is its buffer, its capacity and whether \<^verbatim>\<open>close\<close> has been called on it.
  \<^verbatim>\<open>close\<close> of a closed channel and a send on a closed channel panic.
\<close>

record 'a chan =
  buf :: "'a list"
  cap :: nat
  is_closed :: bool

datatype panic = SendOnClosedChannel | CloseOfClosedChannel

definition make_chan :: "nat \<Rightarrow> 'a chan" where
  "make_chan n = \<lparr>buf = [], cap = n, is_closed = False\<rparr>"

definition close_chan :: "'a chan \<Rightarrow> panic + 'a chan" where
  "close_chan ch =
     (if is_closed ch then Inl CloseOfClosedChannel else Inr (ch\<lparr>is_closed := True\<rparr>))"

text \<open>
  When a communication of a select can proceed. A send on a closed channel proceeds (into
  its panic); a send on an open channel proceeds when the buffer has room. A receive
  proceeds when a value is buffered or the channel is closed.
\<close>

definition send_ready :: "'a chan \<Rightarrow> bool" where
  "send_ready ch \<longleftrightarrow> is_closed ch \<or> length (buf ch) < cap ch"

definition recv_ready :: "'a chan \<Rightarrow> bool" where
  "recv_ready ch \<longleftrightarrow> buf ch \<noteq> [] \<or> is_closed ch"

definition chan_send :: "'a chan \<Rightarrow> 'a \<Rightarrow> panic + 'a chan" where
  "chan_send ch x =
     (if is_closed ch then Inl SendOnClosedChannel else Inr (ch\<lparr>buf := buf ch @ [x]\<rparr>))"

text \<open>
  A receive that can proceed: the oldest buffered value with \<open>ok = True\<close>, or, on a
  closed and drained channel, the zero value with \<open>ok = False\<close>.
\<close>

definition chan_recv :: "'a \<Rightarrow> 'a chan \<Rightarrow> 'a \<times> bool \<times> 'a chan" where
  "chan_recv zero ch =
     (case buf ch of
        x # xs \<Rightarrow> (x, True, ch\<lparr>buf := xs\<rparr>)
      | [] \<Rightarrow> (zero, False, ch))"

text \<open>
  A select chooses among the cases that can proceed; \<open>k\<close> is the runtime's pseudo-random
  choice. \<open>None\<close>: no case can proceed (the default case, or blocking when there is none).
\<close>

definition select_pick :: "'c list \<Rightarrow> nat \<Rightarrow> 'c option" where
  "select_pick ready k = (if ready = [] then None else Some (ready ! (k mod length ready)))"

section \<open>The transport and the observable effects\<close>

datatype message_type = BinaryMessage | CloseMessage | PingMessage

text \<open>An error of \<^verbatim>\<open>ReadMessage\<close>: a \<^verbatim>\<open>*ws.CloseError\<close> with its code, or any other error.\<close>

datatype read_error = CloseError int | OtherError string

definition CloseNormalClosure :: int where
  "CloseNormalClosure = 1000"

definition CloseGoingAway :: int where
  "CloseGoingAway = 1001"

definition CloseAbnormalClosure :: int where
  "CloseAbnormalClosure = 1006"

text \<open>The closure that \<^verbatim>\<open>readPump\<close> installs resets the read deadline by a duration.\<close>

datatype pong_handler = DefaultPongHandler | ResetReadDeadline int

record ws_conn =
  read_limit :: "int option"
  read_deadline :: "time option"
  write_deadline :: "time option"
  on_pong :: pong_handler
  conn_closed :: bool

datatype event =
    EvSetReadLimit int
  | EvSetReadDeadline time
  | EvSetPongHandler
  | EvSetWriteDeadline time
  | EvWriteMessage message_type bytes
  | EvNextWriter message_type
  | EvWrite bytes
  | EvWriterClose
  | EvConnClose
  | EvNewTicker int
  | EvTickerStop
  | EvHandler bytes
  | EvLogPrintf read_error

section \<open>Connection\<close>

text \<open>
  The fields of the struct, and \<open>effects\<close>: the calls made so far on the transport, the
  ticker, the handler and the logger, oldest first. \<open>handler\<close> is whether
  \<^verbatim>\<open>c.handler != nil\<close>; \<open>closeOnce\<close> is whether the \<^verbatim>\<open>sync.Once\<close> has fired.
\<close>

record connection =
  conn :: ws_conn
  send :: "bytes chan"
  handler :: bool
  closeOnce :: bool
  closed :: "unit chan"
  effects :: "event list"

datatype error = ErrorConnectionClosed | ErrorBufferFull

definition emit :: "event \<Rightarrow> connection \<Rightarrow> connection" where
  "emit e c = c\<lparr>effects := effects c @ [e]\<rparr>"

definition conn_Close :: "connection \<Rightarrow> connection" where
  "conn_Close c = emit EvConnClose (c\<lparr>conn := (conn c)\<lparr>conn_closed := True\<rparr>\<rparr>)"

definition SetReadLimit :: "int \<Rightarrow> connection \<Rightarrow> connection" where
  "SetReadLimit n c = emit (EvSetReadLimit n) (c\<lparr>conn := (conn c)\<lparr>read_limit := Some n\<rparr>\<rparr>)"

definition SetReadDeadline :: "time \<Rightarrow> connection \<Rightarrow> connection" where
  "SetReadDeadline t c =
     emit (EvSetReadDeadline t) (c\<lparr>conn := (conn c)\<lparr>read_deadline := Some t\<rparr>\<rparr>)"

definition SetWriteDeadline :: "time \<Rightarrow> connection \<Rightarrow> connection" where
  "SetWriteDeadline t c =
     emit (EvSetWriteDeadline t) (c\<lparr>conn := (conn c)\<lparr>write_deadline := Some t\<rparr>\<rparr>)"

definition SetPongHandler :: "pong_handler \<Rightarrow> connection \<Rightarrow> connection" where
  "SetPongHandler h c = emit EvSetPongHandler (c\<lparr>conn := (conn c)\<lparr>on_pong := h\<rparr>\<rparr>)"

subsection \<open>The upgrader\<close>

record http_request =
  req_host :: string
  req_origin :: "string option"

record upgrader_config =
  ReadBufferSize :: nat
  WriteBufferSize :: nat
  CheckOrigin :: "http_request \<Rightarrow> bool"

definition upgrader :: upgrader_config where
  "upgrader = \<lparr>ReadBufferSize = 1024, WriteBufferSize = 1024, CheckOrigin = (\<lambda>r. True)\<rparr>"

subsection \<open>Close, IsClosed, SendBinary\<close>

text \<open>The function given to \<^verbatim>\<open>closeOnce.Do\<close>.\<close>

definition teardown :: "connection \<Rightarrow> panic + connection" where
  "teardown c =
     (case close_chan (closed c) of
        Inl p \<Rightarrow> Inl p
      | Inr cl \<Rightarrow>
          (case close_chan (send c) of
             Inl p \<Rightarrow> Inl p
           | Inr sn \<Rightarrow> Inr (conn_Close (c\<lparr>closed := cl, send := sn\<rparr>))))"

definition Close :: "connection \<Rightarrow> panic + connection" where
  "Close c = (if closeOnce c then Inr c else teardown (c\<lparr>closeOnce := True\<rparr>))"

definition IsClosed :: "connection \<Rightarrow> bool" where
  "IsClosed c = (if recv_ready (closed c) then True else False)"

datatype send_case = CaseSend | CaseClosed

definition SendBinary_ready :: "connection \<Rightarrow> send_case list" where
  "SendBinary_ready c =
     (if send_ready (send c) then [CaseSend] else []) @
     (if recv_ready (closed c) then [CaseClosed] else [])"

definition SendBinary :: "connection \<Rightarrow> bytes \<Rightarrow> nat \<Rightarrow> panic + (error option \<times> connection)" where
  "SendBinary c data k =
     (case select_pick (SendBinary_ready c) k of
        Some CaseSend \<Rightarrow>
          (case chan_send (send c) data of
             Inl p \<Rightarrow> Inl p
           | Inr sn \<Rightarrow> Inr (None, c\<lparr>send := sn\<rparr>))
      | Some CaseClosed \<Rightarrow> Inr (Some ErrorConnectionClosed, c)
      | None \<Rightarrow>
          (case Close c of
             Inl p \<Rightarrow> Inl p
           | Inr c' \<Rightarrow> Inr (Some ErrorBufferFull, c')))"

text \<open>The struct literal of \<^verbatim>\<open>Upgrade\<close>, around the transport the handshake produced.\<close>

definition new_connection :: "ws_conn \<Rightarrow> bool \<Rightarrow> connection" where
  "new_connection tr h =
     \<lparr>conn = tr, send = make_chan 256, handler = h, closeOnce = False,
      closed = make_chan 0, effects = []\<rparr>"

definition fresh_transport :: ws_conn where
  "fresh_transport =
     \<lparr>read_limit = None, read_deadline = None, write_deadline = None,
      on_pong = DefaultPongHandler, conn_closed = False\<rparr>"

text \<open>
  What holds of every connection the code builds: the two channels are closed by the
  \<^verbatim>\<open>sync.Once\<close> and by nothing else.
\<close>

definition conn_inv :: "connection \<Rightarrow> bool" where
  "conn_inv c \<longleftrightarrow>
     is_closed (closed c) = closeOnce c \<and> is_closed (send c) = closeOnce c \<and> buf (closed c) = []"

section \<open>The inbound pump\<close>

text \<open>
  \<^verbatim>\<open>ws.IsUnexpectedCloseError\<close> belongs to the websocket library: it is true of a
  \<^verbatim>\<open>*CloseError\<close> whose code is not among the expected ones, and false of every other
  error.
\<close>

definition IsUnexpectedCloseError :: "read_error \<Rightarrow> int list \<Rightarrow> bool" where
  "IsUnexpectedCloseError err expectedCodes =
     (case err of
        CloseError code \<Rightarrow> code \<notin> set expectedCodes
      | OtherError _ \<Rightarrow> False)"

text \<open>
  One call of \<^verbatim>\<open>ReadMessage\<close>, as the transport answers it: the clock readings at the
  pong frames it handled while waiting, then a message or an error. The library runs the
  installed pong handler at each pong frame.
\<close>

record read_call =
  rc_pongs :: "time list"
  rc_result :: "read_error + bytes"

definition deliver_pong :: "time \<Rightarrow> connection \<Rightarrow> connection" where
  "deliver_pong t c =
     (case on_pong (conn c) of
        DefaultPongHandler \<Rightarrow> c
      | ResetReadDeadline d \<Rightarrow> SetReadDeadline (t + d) c)"

datatype iter = Continue connection | Return connection | Blocked

definition readPump_setup :: "connection \<Rightarrow> time \<Rightarrow> connection" where
  "readPump_setup c t =
     SetPongHandler (ResetReadDeadline pongWait)
       (SetReadDeadline (t + pongWait) (SetReadLimit maxMessageSize c))"

definition readPump_iter :: "connection \<Rightarrow> read_call \<Rightarrow> iter" where
  "readPump_iter c rc =
     (let c1 = fold deliver_pong (rc_pongs rc) c in
      case rc_result rc of
        Inl err \<Rightarrow>
          Return (if IsUnexpectedCloseError err [CloseGoingAway, CloseAbnormalClosure]
                  then emit (EvLogPrintf err) c1 else c1)
      | Inr message \<Rightarrow>
          Continue (if handler c1 then emit (EvHandler message) c1 else c1))"

text \<open>\<open>None\<close>: the answers are used up and the pump still waits in \<^verbatim>\<open>ReadMessage\<close>.\<close>

fun readPump_loop :: "connection \<Rightarrow> read_call list \<Rightarrow> connection option" where
  "readPump_loop c [] = None"
| "readPump_loop c (rc # rcs) =
     (case readPump_iter c rc of
        Continue c' \<Rightarrow> readPump_loop c' rcs
      | Return c' \<Rightarrow> Some c'
      | Blocked \<Rightarrow> readPump_loop c rcs)"

definition readPump :: "connection \<Rightarrow> time \<Rightarrow> read_call list \<Rightarrow> (panic + connection) option" where
  "readPump c t rcs = map_option Close (readPump_loop (readPump_setup c t) rcs)"

section \<open>The outbound pump\<close>

text \<open>
  What one turn of the loop meets: the runtime's choice in the select, whether the ticker
  has fired, the clock, and which transport calls fail.
\<close>

record write_env =
  we_pick :: nat
  we_tick :: bool
  we_now :: time
  we_next_writer_fails :: bool
  we_close_fails :: bool
  we_ping_fails :: bool

datatype pump_case = CaseMessage | CaseTick | CaseShutdown

definition writePump_ready :: "connection \<Rightarrow> bool \<Rightarrow> pump_case list" where
  "writePump_ready c ticked =
     (if recv_ready (send c) then [CaseMessage] else []) @
     (if ticked then [CaseTick] else []) @
     (if recv_ready (closed c) then [CaseShutdown] else [])"

text \<open>\<^verbatim>\<open>for range len(c.send) { w.Write(<-c.send) }\<close>; \<open>None\<close> when a receive would block.\<close>

fun drain :: "nat \<Rightarrow> connection \<Rightarrow> connection option" where
  "drain 0 c = Some c"
| "drain (Suc n) c =
     (if recv_ready (send c)
      then (case chan_recv [] (send c) of
              (m, ok, sn) \<Rightarrow> drain n (emit (EvWrite m) (c\<lparr>send := sn\<rparr>)))
      else None)"

definition writePump_iter :: "connection \<Rightarrow> write_env \<Rightarrow> iter" where
  "writePump_iter c e =
     (case select_pick (writePump_ready c (we_tick e)) (we_pick e) of
        None \<Rightarrow> Blocked
      | Some CaseMessage \<Rightarrow>
          (case chan_recv [] (send c) of
             (message, ok, sn) \<Rightarrow>
               let c1 = SetWriteDeadline (we_now e + writeWait) (c\<lparr>send := sn\<rparr>) in
               if \<not> ok then Return (emit (EvWriteMessage CloseMessage []) c1)
               else
                 let c2 = emit (EvNextWriter BinaryMessage) c1 in
                 if we_next_writer_fails e then Return c2
                 else
                   let c3 = emit (EvWrite message) c2 in
                   (case drain (length (buf (send c3))) c3 of
                      None \<Rightarrow> Blocked
                    | Some c4 \<Rightarrow>
                        let c5 = emit EvWriterClose c4 in
                        if we_close_fails e then Return c5 else Continue c5))
      | Some CaseTick \<Rightarrow>
          let c1 = SetWriteDeadline (we_now e + writeWait) c;
              c2 = emit (EvWriteMessage PingMessage []) c1
          in if we_ping_fails e then Return c2 else Continue c2
      | Some CaseShutdown \<Rightarrow> Return c)"

text \<open>The deferred function of \<^verbatim>\<open>writePump\<close>.\<close>

definition writePump_exit :: "connection \<Rightarrow> connection" where
  "writePump_exit c = conn_Close (emit EvTickerStop c)"

text \<open>\<open>None\<close>: the turns are used up and the pump is still in its loop.\<close>

fun writePump_loop :: "connection \<Rightarrow> write_env list \<Rightarrow> connection option" where
  "writePump_loop c [] = None"
| "writePump_loop c (e # es) =
     (case writePump_iter c e of
        Continue c' \<Rightarrow> writePump_loop c' es
      | Return c' \<Rightarrow> Some c'
      | Blocked \<Rightarrow> writePump_loop c es)"

definition writePump :: "connection \<Rightarrow> write_env list \<Rightarrow> connection option" where
  "writePump c es =
     map_option writePump_exit (writePump_loop (emit (EvNewTicker pingPeriod) c) es)"

section \<open>Upgrade\<close>

text \<open>
  \<open>hs\<close> is what \<^verbatim>\<open>upgrader.Upgrade(w, r, nil)\<close> returned. The two pumps are deferred
  calls: they run when \<^verbatim>\<open>Upgrade\<close> returns, the last deferred first, each to its end,
  and only then does the caller get the connection. \<open>None\<close>: \<^verbatim>\<open>Upgrade\<close> has not
  returned.
\<close>

definition Upgrade ::
  "string + ws_conn \<Rightarrow> bool \<Rightarrow> write_env list \<Rightarrow> time \<Rightarrow> read_call list
     \<Rightarrow> (panic + (string + connection)) option" where
  "Upgrade hs h es t rcs =
     (case hs of
        Inl err \<Rightarrow> Some (Inr (Inl err))
      | Inr tr \<Rightarrow>
          (case writePump (new_connection tr h) es of
             None \<Rightarrow> None
           | Some c1 \<Rightarrow>
               (case readPump c1 t rcs of
                  None \<Rightarrow> None
                | Some (Inl p) \<Rightarrow> Some (Inl p)
                | Some (Inr c2) \<Rightarrow> Some (Inr (Inr c2)))))"

section \<open>Interleavings\<close>

text \<open>
  The operations that callers and the two pumps perform on a connection, one at a time in
  any order: a pump takes part turn by turn, and a turn that leaves the loop runs the
  pump's deferred call.
\<close>

datatype op =
    OpClose
  | OpIsClosed
  | OpSendBinary bytes nat
  | OpReadSetup time
  | OpReadIter read_call
  | OpWriteIter write_env

fun exec_op :: "connection \<Rightarrow> op \<Rightarrow> panic + connection" where
  "exec_op c OpClose = Close c"
| "exec_op c OpIsClosed = (case IsClosed c of True \<Rightarrow> Inr c | False \<Rightarrow> Inr c)"
| "exec_op c (OpSendBinary d k) =
     (case SendBinary c d k of Inl p \<Rightarrow> Inl p | Inr (r, c') \<Rightarrow> Inr c')"
| "exec_op c (OpReadSetup t) = Inr (readPump_setup c t)"
| "exec_op c (OpReadIter rc) =
     (case readPump_iter c rc of
        Continue c' \<Rightarrow> Inr c'
      | Return c' \<Rightarrow> Close c'
      | Blocked \<Rightarrow> Inr c)"
| "exec_op c (OpWriteIter e) =
     (case writePump_iter c e of
        Continue c' \<Rightarrow> Inr c'
      | Return c' \<Rightarrow> Inr (writePump_exit c')
      | Blocked \<Rightarrow> Inr c)"

fun run :: "connection \<Rightarrow> op list \<Rightarrow> panic + connection" where
  "run c [] = Inr c"
| "run c (x # xs) = (case exec_op c x of Inl p \<Rightarrow> Inl p | Inr c' \<Rightarrow> run c' xs)"

text \<open>\<open>Close\<close> called \<open>n\<close> times in a row.\<close>

fun Close_times :: "nat \<Rightarrow> connection \<Rightarrow> panic + connection" where
  "Close_times 0 c = Inr c"
| "Close_times (Suc n) c = (case Close c of Inl p \<Rightarrow> Inl p | Inr c' \<Rightarrow> Close_times n c')"

text \<open>
  Enqueues by other goroutines and turns of the outbound pump, as long as every enqueue
  returns \<^verbatim>\<open>nil\<close>. A turn that leaves the loop runs the deferred call of the pump and ends
  the run: what comes after it in the list never meets the pump. \<open>None\<close>: an enqueue did
  not return \<^verbatim>\<open>nil\<close>.
\<close>

datatype action = Enqueue bytes nat | Pump write_env

datatype pump_end = Running connection | Returned connection

fun pump_run :: "connection \<Rightarrow> action list \<Rightarrow> pump_end option" where
  "pump_run c [] = Some (Running c)"
| "pump_run c (Enqueue d k # as) =
     (case SendBinary c d k of
        Inr (None, c') \<Rightarrow> pump_run c' as
      | _ \<Rightarrow> None)"
| "pump_run c (Pump e # as) =
     (case writePump_iter c e of
        Continue c' \<Rightarrow> pump_run c' as
      | Blocked \<Rightarrow> pump_run c as
      | Return c' \<Rightarrow> Some (Returned (writePump_exit c')))"

fun enqueued :: "action list \<Rightarrow> bytes list" where
  "enqueued [] = []"
| "enqueued (Enqueue d k # as) = d # enqueued as"
| "enqueued (Pump e # as) = enqueued as"

text \<open>The payloads handed to \<^verbatim>\<open>w.Write\<close>, oldest first.\<close>

fun payloads :: "event list \<Rightarrow> bytes list" where
  "payloads [] = []"
| "payloads (EvWrite m # es) = m # payloads es"
| "payloads (e # es) = payloads es"

text \<open>
  Two connections with the same shutdown gate: the same \<^verbatim>\<open>sync.Once\<close>, the same shutdown
  signal, the queue closed in both or in neither, the same pong handler, the transport
  closed in both or in neither, and as many transport closes and ticker stops.
\<close>

definition same_gate :: "connection \<Rightarrow> connection \<Rightarrow> bool" where
  "same_gate c c' \<longleftrightarrow>
     closeOnce c' = closeOnce c \<and> closed c' = closed c \<and>
     is_closed (send c') = is_closed (send c) \<and> on_pong (conn c') = on_pong (conn c) \<and>
     conn_closed (conn c') = conn_closed (conn c) \<and>
     count_list (effects c') EvConnClose = count_list (effects c) EvConnClose \<and>
     count_list (effects c') EvTickerStop = count_list (effects c) EvTickerStop"

text \<open>
  The transport is closed once by each exit of the outbound pump and once more by the
  teardown, if it has run.
\<close>

definition close_count_inv :: "connection \<Rightarrow> bool" where
  "close_count_inv c \<longleftrightarrow>
     count_list (effects c) EvConnClose =
       count_list (effects c) EvTickerStop + (if closeOnce c then 1 else 0)"

text \<open>What holds of every connection that callers and pumps can reach.\<close>

definition reach_inv :: "connection \<Rightarrow> bool" where
  "reach_inv c \<longleftrightarrow> conn_inv c \<and> close_count_inv c"

text \<open>A new connection after 256 enqueues that no pump has taken up.\<close>

definition full_connection :: connection where
  "full_connection =
     (new_connection fresh_transport True)
       \<lparr>send := \<lparr>buf = replicate 256 [7], cap = 256, is_closed = False\<rparr>\<rparr>"

text \<open>A turn of the outbound pump in which no transport call fails and no tick is due.\<close>

definition quiet_turn :: write_env where
  "quiet_turn = \<lparr>we_pick = 0, we_tick = False, we_now = 0, we_next_writer_fails = False,
                 we_close_fails = False, we_ping_fails = False\<rparr>"

text \<open>
  What the logger has printed, oldest first; the first error among the answers of the
  transport; the log lines of one run of the inbound pump; a read that fails at once.
\<close>

fun logged :: "event list \<Rightarrow> read_error list" where
  "logged [] = []"
| "logged (EvLogPrintf err # es) = err # logged es"
| "logged (e # es) = logged es"

fun first_error :: "read_call list \<Rightarrow> read_error option" where
  "first_error [] = None"
| "first_error (rc # rcs) = (case rc_result rc of Inl err \<Rightarrow> Some err | Inr m \<Rightarrow> first_error rcs)"

definition readPump_log :: "connection \<Rightarrow> time \<Rightarrow> read_call list \<Rightarrow> read_error list option" where
  "readPump_log c t rcs =
     (case readPump c t rcs of Some (Inr c') \<Rightarrow> Some (logged (effects c')) | _ \<Rightarrow> None)"

definition failing_read :: "read_error \<Rightarrow> read_call" where
  "failing_read err = \<lparr>rc_pongs = [], rc_result = Inl err\<rparr>"

text \<open>
  A new connection after \<open>Close\<close>, and a turn of the outbound pump in which the tick is due
  and the ping cannot be written.
\<close>

definition shut_connection :: connection where
  "shut_connection =
     \<lparr>conn = fresh_transport\<lparr>conn_closed := True\<rparr>,
      send = \<lparr>buf = [], cap = 256, is_closed = True\<rparr>, handler = True, closeOnce = True,
      closed = \<lparr>buf = [], cap = 0, is_closed = True\<rparr>, effects = [EvConnClose]\<rparr>"

definition failing_ping :: write_env where
  "failing_ping = \<lparr>we_pick = 0, we_tick = True, we_now = 0, we_next_writer_fails = False,
                   we_close_fails = False, we_ping_fails = True\<rparr>"

text \<open>
  What the pump has written; what a run of \<open>pump_run\<close> shows (whether the pump has
  returned, what it has written, what is still queued); a turn in which
  \<^verbatim>\<open>NextWriter\<close> fails; a new connection after two enqueues.
\<close>

definition written :: "connection \<Rightarrow> bytes list" where
  "written c = payloads (effects c)"

definition pump_view :: "pump_end \<Rightarrow> bool \<times> bytes list \<times> bytes list" where
  "pump_view r =
     (case r of
        Running c \<Rightarrow> (False, written c, buf (send c))
      | Returned c \<Rightarrow> (True, written c, buf (send c)))"

definition failing_next_writer :: write_env where
  "failing_next_writer = \<lparr>we_pick = 0, we_tick = False, we_now = 0, we_next_writer_fails = True,
                           we_close_fails = False, we_ping_fails = False\<rparr>"

definition queued_connection :: connection where
  "queued_connection =
     (new_connection fresh_transport True)
       \<lparr>send := \<lparr>buf = [[1], [2]], cap = 256, is_closed = False\<rparr>\<rparr>"

text \<open>
  The read deadlines set, oldest first; the clock readings at the pong frames the transport
  met up to the first failing read; reads with pong frames that end in a failure.
\<close>

fun deadlines :: "event list \<Rightarrow> time list" where
  "deadlines [] = []"
| "deadlines (EvSetReadDeadline t # es) = t # deadlines es"
| "deadlines (e # es) = deadlines es"

fun pongs_seen :: "read_call list \<Rightarrow> time list" where
  "pongs_seen [] = []"
| "pongs_seen (rc # rcs) =
     rc_pongs rc @ (case rc_result rc of Inl err \<Rightarrow> [] | Inr m \<Rightarrow> pongs_seen rcs)"

definition pong_reads :: "read_call list" where
  "pong_reads =
     [\<lparr>rc_pongs = [200, 300], rc_result = Inr [1]\<rparr>,
      \<lparr>rc_pongs = [400], rc_result = Inl (OtherError ''i/o timeout'')\<rparr>]"

section \<open>Basic facts\<close>

lemmas prims = emit_def conn_Close_def SetReadLimit_def SetReadDeadline_def
  SetWriteDeadline_def SetPongHandler_def

lemmas evals = new_connection_def fresh_transport_def make_chan_def SendBinary_def
  SendBinary_ready_def select_pick_def send_ready_def recv_ready_def chan_send_def
  chan_recv_def Close_def teardown_def close_chan_def IsClosed_def prims

lemma conn_inv_new: "conn_inv (new_connection tr h)"
  by (simp add: conn_inv_def new_connection_def make_chan_def)

lemma Close_open:
  "conn_inv c \<Longrightarrow> \<not> closeOnce c \<Longrightarrow>
   Close c = Inr (conn_Close (c\<lparr>closeOnce := True, closed := (closed c)\<lparr>is_closed := True\<rparr>,
                                send := (send c)\<lparr>is_closed := True\<rparr>\<rparr>))"
  by (simp add: Close_def teardown_def close_chan_def conn_inv_def)

lemma Close_done: "closeOnce c \<Longrightarrow> Close c = Inr c"
  by (simp add: Close_def)

lemma Close_inv: "conn_inv c \<Longrightarrow> \<exists>c'. Close c = Inr c' \<and> conn_inv c' \<and> closeOnce c'"
  by (cases "closeOnce c") (simp_all add: Close_open Close_done conn_inv_def prims)

lemma IsClosed_iff: "conn_inv c \<Longrightarrow> IsClosed c = closeOnce c"
  by (simp add: IsClosed_def recv_ready_def conn_inv_def)

lemma same_gate_refl [simp]: "same_gate c c"
  by (simp add: same_gate_def)

lemma same_gate_trans: "same_gate a b \<Longrightarrow> same_gate b c \<Longrightarrow> same_gate a c"
  by (simp add: same_gate_def)

lemma chan_recv_closed: "chan_recv z ch = (m, ok, sn) \<Longrightarrow> is_closed sn = is_closed ch"
  by (auto simp: chan_recv_def split: list.splits)

lemma drain_gate: "drain n c = Some c' \<Longrightarrow> same_gate c c'"
proof (induction n arbitrary: c)
  case 0
  then show ?case by simp
next
  case (Suc n)
  obtain m ok sn where r: "chan_recv [] (send c) = (m, ok, sn)"
    by (cases "chan_recv [] (send c)") auto
  with Suc.prems have "drain n (emit (EvWrite m) (c\<lparr>send := sn\<rparr>)) = Some c'"
    by (simp split: if_splits)
  then have "same_gate (emit (EvWrite m) (c\<lparr>send := sn\<rparr>)) c'"
    by (rule Suc.IH)
  moreover have "same_gate c (emit (EvWrite m) (c\<lparr>send := sn\<rparr>))"
    using chan_recv_closed [OF r] by (simp add: same_gate_def emit_def)
  ultimately show ?case by (blast intro: same_gate_trans)
qed

lemma writePump_iter_gate:
  assumes "writePump_iter c e = Continue c' \<or> writePump_iter c e = Return c'"
  shows "same_gate c c'"
proof (cases "select_pick (writePump_ready c (we_tick e)) (we_pick e)")
  case None
  with assms show ?thesis by (simp add: writePump_iter_def)
next
  case (Some pc)
  show ?thesis
  proof (cases pc)
    case CaseMessage
    obtain m ok sn where r: "chan_recv [] (send c) = (m, ok, sn)"
      by (cases "chan_recv [] (send c)") auto
    let ?c1 = "SetWriteDeadline (we_now e + writeWait) (c\<lparr>send := sn\<rparr>)"
    let ?c3 = "emit (EvWrite m) (emit (EvNextWriter BinaryMessage) ?c1)"
    have g1: "same_gate c ?c1"
      using chan_recv_closed [OF r] by (simp add: same_gate_def prims)
    have g3: "same_gate c ?c3"
      using chan_recv_closed [OF r] by (simp add: same_gate_def prims)
    show ?thesis
    proof (cases "drain (length (buf (send ?c3))) ?c3")
      case None
      with assms Some CaseMessage r g1 show ?thesis
        by (auto simp: writePump_iter_def Let_def same_gate_def emit_def split: if_splits)
    next
      case (Some c4)
      from drain_gate [OF Some] g3 have "same_gate c c4" by (blast intro: same_gate_trans)
      with assms \<open>select_pick _ _ = _\<close> CaseMessage r g1 Some show ?thesis
        by (auto simp: writePump_iter_def Let_def same_gate_def emit_def split: if_splits)
    qed
  next
    case CaseTick
    with assms Some show ?thesis
      by (auto simp: writePump_iter_def Let_def same_gate_def prims split: if_splits)
  next
    case CaseShutdown
    with assms Some show ?thesis
      by (auto simp: writePump_iter_def)
  qed
qed

lemma fold_deliver_pong_gate: "same_gate c (fold deliver_pong ts c)"
proof (induction ts arbitrary: c)
  case Nil
  then show ?case by simp
next
  case (Cons t ts)
  have "same_gate c (deliver_pong t c)"
    by (simp add: deliver_pong_def same_gate_def prims split: pong_handler.splits)
  with Cons.IH [of "deliver_pong t c"] show ?case
    by (auto intro: same_gate_trans)
qed

lemma readPump_iter_gate:
  assumes "readPump_iter c rc = Continue c' \<or> readPump_iter c rc = Return c'"
  shows "same_gate c c'"
proof -
  let ?c1 = "fold deliver_pong (rc_pongs rc) c"
  have g: "same_gate c ?c1" by (rule fold_deliver_pong_gate)
  have "same_gate ?c1 c'"
    using assms
    by (auto simp: readPump_iter_def Let_def same_gate_def emit_def split: sum.splits if_splits)
  with g show ?thesis by (blast intro: same_gate_trans)
qed

section \<open>The shutdown gate is kept by every operation\<close>

lemma same_gate_inv: "same_gate c c' \<Longrightarrow> reach_inv c \<Longrightarrow> reach_inv c'"
  by (simp add: same_gate_def reach_inv_def conn_inv_def close_count_inv_def)

lemma Close_reach: "reach_inv c \<Longrightarrow> \<exists>c'. Close c = Inr c' \<and> reach_inv c' \<and> closeOnce c'"
  by (cases "closeOnce c")
     (simp_all add: reach_inv_def Close_open Close_done conn_inv_def close_count_inv_def prims)

lemma writePump_exit_reach: "reach_inv c \<Longrightarrow> reach_inv (writePump_exit c)"
  by (simp add: writePump_exit_def reach_inv_def conn_inv_def close_count_inv_def prims)

lemma readPump_setup_reach: "reach_inv c \<Longrightarrow> reach_inv (readPump_setup c t)"
  by (simp add: readPump_setup_def reach_inv_def conn_inv_def close_count_inv_def prims)

lemma readPump_setup_closed: "closed (readPump_setup c t) = closed c"
  by (simp add: readPump_setup_def prims)

lemma SendBinary_reach:
  assumes "reach_inv c" "SendBinary c d k = Inr (r, c')"
  shows "reach_inv c'"
proof (cases "select_pick (SendBinary_ready c) k")
  case None
  with assms Close_reach [OF assms(1)] show ?thesis
    by (auto simp: SendBinary_def)
next
  case (Some sc)
  with assms show ?thesis
    by (cases sc)
       (auto simp: SendBinary_def chan_send_def reach_inv_def conn_inv_def close_count_inv_def
             split: if_splits)
qed

lemma exec_op_reach:
  assumes "reach_inv c" "exec_op c x = Inr c'"
  shows "reach_inv c'"
proof (cases x)
  case OpClose
  with assms Close_reach [OF assms(1)] show ?thesis by auto
next
  case OpIsClosed
  with assms show ?thesis by (auto split: bool.splits)
next
  case (OpSendBinary d k)
  with assms show ?thesis
    by (auto split: sum.splits prod.splits dest: SendBinary_reach)
next
  case (OpReadSetup t)
  with assms show ?thesis by (auto intro: readPump_setup_reach)
next
  case (OpReadIter rc)
  show ?thesis
  proof (cases "readPump_iter c rc")
    case (Continue c1)
    with assms OpReadIter readPump_iter_gate [of c rc c'] show ?thesis
      by (auto dest: same_gate_inv)
  next
    case (Return c1)
    with readPump_iter_gate [of c rc c1] assms(1) have "reach_inv c1"
      by (auto dest: same_gate_inv)
    with Close_reach [of c1] assms OpReadIter Return show ?thesis by auto
  next
    case Blocked
    with assms OpReadIter show ?thesis by auto
  qed
next
  case (OpWriteIter e)
  show ?thesis
  proof (cases "writePump_iter c e")
    case (Continue c1)
    with assms OpWriteIter writePump_iter_gate [of c e c'] show ?thesis
      by (auto dest: same_gate_inv)
  next
    case (Return c1)
    with writePump_iter_gate [of c e c1] assms(1) have "reach_inv c1"
      by (auto dest: same_gate_inv)
    with assms OpWriteIter Return show ?thesis by (auto intro: writePump_exit_reach)
  next
    case Blocked
    with assms OpWriteIter show ?thesis by auto
  qed
qed

lemma run_reach: "reach_inv c \<Longrightarrow> run c xs = Inr c' \<Longrightarrow> reach_inv c'"
proof (induction xs arbitrary: c)
  case Nil
  then show ?case by simp
next
  case (Cons x xs)
  then show ?case by (auto split: sum.splits dest: exec_op_reach)
qed

lemma reach_inv_new: "reach_inv (new_connection tr h)"
  using conn_inv_new [of tr h]
  by (simp add: reach_inv_def close_count_inv_def new_connection_def)

lemma IsClosed_eq: "IsClosed c = recv_ready (closed c)"
  by (simp add: IsClosed_def)

lemma Close_times_done: "closeOnce c \<Longrightarrow> Close_times n c = Inr c"
  by (induction n) (simp_all add: Close_done)

lemma exec_op_closed: "IsClosed c \<Longrightarrow> exec_op c x = Inr c' \<Longrightarrow> IsClosed c'"
proof (cases x)
  case OpClose
  assume "IsClosed c" "exec_op c x = Inr c'"
  with OpClose show ?thesis
    by (auto simp: Close_def teardown_def close_chan_def IsClosed_eq recv_ready_def prims
             split: if_splits)
next
  case OpIsClosed
  assume "IsClosed c" "exec_op c x = Inr c'"
  with OpIsClosed show ?thesis by (auto split: bool.splits)
next
  case (OpSendBinary d k)
  assume a: "IsClosed c" "exec_op c x = Inr c'"
  with OpSendBinary show ?thesis
    by (auto simp: SendBinary_def Close_def teardown_def close_chan_def chan_send_def
                   IsClosed_eq recv_ready_def prims
             split: if_splits sum.splits prod.splits option.splits send_case.splits)
next
  case (OpReadSetup t)
  assume "IsClosed c" "exec_op c x = Inr c'"
  with OpReadSetup show ?thesis
    by (auto simp: IsClosed_eq readPump_setup_closed)
next
  case (OpReadIter rc)
  assume a: "IsClosed c" "exec_op c x = Inr c'"
  show ?thesis
  proof (cases "readPump_iter c rc")
    case (Continue c1)
    with a OpReadIter readPump_iter_gate [of c rc c'] show ?thesis
      by (auto simp: IsClosed_eq same_gate_def)
  next
    case (Return c1)
    with readPump_iter_gate [of c rc c1] a(1) have "IsClosed c1"
      by (auto simp: IsClosed_eq same_gate_def)
    with a OpReadIter Return show ?thesis
      by (auto simp: Close_def teardown_def close_chan_def IsClosed_eq recv_ready_def prims
             split: if_splits)
  next
    case Blocked
    with a OpReadIter show ?thesis by auto
  qed
next
  case (OpWriteIter e)
  assume a: "IsClosed c" "exec_op c x = Inr c'"
  show ?thesis
  proof (cases "writePump_iter c e")
    case (Continue c1)
    with a OpWriteIter writePump_iter_gate [of c e c'] show ?thesis
      by (auto simp: IsClosed_eq same_gate_def)
  next
    case (Return c1)
    with writePump_iter_gate [of c e c1] a OpWriteIter show ?thesis
      by (auto simp: IsClosed_eq same_gate_def writePump_exit_def prims)
  next
    case Blocked
    with a OpWriteIter show ?thesis by auto
  qed
qed

lemma enqueue_many:
  assumes "conn_inv c" "\<not> closeOnce c" "length (buf (send c)) + length ds \<le> cap (send c)"
  shows "run c (map (\<lambda>d. OpSendBinary d k) ds) = Inr (c\<lparr>send := (send c)\<lparr>buf := buf (send c) @ ds\<rparr>\<rparr>)"
  using assms
proof (induction ds arbitrary: c)
  case Nil
  then show ?case by simp
next
  case (Cons d ds)
  let ?c1 = "c\<lparr>send := (send c)\<lparr>buf := buf (send c) @ [d]\<rparr>\<rparr>"
  from Cons.prems have rdy: "SendBinary_ready c = [CaseSend]"
    by (simp add: SendBinary_ready_def send_ready_def recv_ready_def conn_inv_def)
  with Cons.prems have s: "SendBinary c d k = Inr (None, ?c1)"
    by (simp add: SendBinary_def select_pick_def chan_send_def conn_inv_def)
  have "run ?c1 (map (\<lambda>d. OpSendBinary d k) ds) = Inr (?c1\<lparr>send := (send ?c1)\<lparr>buf := buf (send ?c1) @ ds\<rparr>\<rparr>)"
    using Cons.prems by (intro Cons.IH) (simp_all add: conn_inv_def)
  with s show ?case by simp
qed

lemma full_connection_reached:
  "run (new_connection fresh_transport True) (map (\<lambda>d. OpSendBinary d k) (replicate 256 [7])) = Inr full_connection"
proof -
  let ?c0 = "new_connection fresh_transport True"
  have "run ?c0 (map (\<lambda>d. OpSendBinary d k) (replicate 256 [7])) =
        Inr (?c0\<lparr>send := (send ?c0)\<lparr>buf := buf (send ?c0) @ replicate 256 [7]\<rparr>\<rparr>)"
    by (rule enqueue_many)
       (simp_all add: conn_inv_def new_connection_def make_chan_def)
  also have "?c0\<lparr>send := (send ?c0)\<lparr>buf := buf (send ?c0) @ replicate 256 [7]\<rparr>\<rparr> = full_connection"
    by (simp add: full_connection_def new_connection_def make_chan_def)
  finally show ?thesis .
qed

lemma SendBinary_after_Close:
  assumes "conn_inv c" "closeOnce c"
  shows "IsClosed c \<and> SendBinary c d k = (if even k then Inl SendOnClosedChannel else Inr (Some ErrorConnectionClosed, c))"
proof -
  from assms have rdy: "SendBinary_ready c = [CaseSend, CaseClosed]"
    by (simp add: SendBinary_ready_def send_ready_def recv_ready_def conn_inv_def)
  have l: "length [CaseSend, CaseClosed] = 2" by simp
  have "k mod 2 = (if even k then 0 else 1)"
    by (simp add: even_iff_mod_2_eq_zero odd_iff_mod_2_eq_one)
  then have "[CaseSend, CaseClosed] ! (k mod 2) = (if even k then CaseSend else CaseClosed)"
    by simp
  then have "select_pick (SendBinary_ready c) k = Some (if even k then CaseSend else CaseClosed)"
    unfolding select_pick_def rdy l by simp
  with assms show ?thesis
    by (simp add: SendBinary_def chan_send_def IsClosed_iff conn_inv_def)
qed

section \<open>The queue is first in, first out\<close>

lemmas pump_evals = writePump_iter_def writePump_ready_def quiet_turn_def Let_def

lemma payloads_append: "payloads (xs @ ys) = payloads xs @ payloads ys"
  by (induction xs rule: payloads.induct) simp_all

lemma payloads_emit_Write [simp]: "payloads (effects (emit (EvWrite m) c)) = payloads (effects c) @ [m]"
  by (simp add: emit_def payloads_append)

lemma drain_fifo:
  "n \<le> length (buf (send c)) \<Longrightarrow>
   \<exists>c'. drain n c = Some c' \<and>
        effects c' = effects c @ map EvWrite (take n (buf (send c))) \<and>
        buf (send c') = drop n (buf (send c))"
proof (induction n arbitrary: c)
  case 0
  then show ?case by simp
next
  case (Suc n)
  then obtain m ms where b: "buf (send c) = m # ms" by (cases "buf (send c)") auto
  let ?c1 = "emit (EvWrite m) (c\<lparr>send := (send c)\<lparr>buf := ms\<rparr>\<rparr>)"
  from Suc.prems b have "n \<le> length (buf (send ?c1))" by (simp add: emit_def)
  from Suc.IH [OF this] obtain c' where
    "drain n ?c1 = Some c'" "effects c' = effects ?c1 @ map EvWrite (take n (buf (send ?c1)))"
    "buf (send c') = drop n (buf (send ?c1))" by blast
  with b show ?case by (simp add: recv_ready_def chan_recv_def emit_def)
qed

lemma payloads_map_Write [simp]: "payloads (map EvWrite ms) = ms"
  by (induction ms) simp_all

lemma writePump_iter_fifo:
  assumes "writePump_iter c e = Continue c'"
  shows "payloads (effects c') @ buf (send c') = payloads (effects c) @ buf (send c)"
proof (cases "select_pick (writePump_ready c (we_tick e)) (we_pick e)")
  case None
  with assms show ?thesis by (simp add: writePump_iter_def)
next
  case (Some pc)
  show ?thesis
  proof (cases pc)
    case CaseMessage
    show ?thesis
    proof (cases "buf (send c)")
      case Nil
      with assms Some CaseMessage show ?thesis
        by (simp add: writePump_iter_def chan_recv_def)
    next
      case (Cons m ms)
      let ?c3 = "emit (EvWrite m) (emit (EvNextWriter BinaryMessage)
                   (SetWriteDeadline (we_now e + writeWait) (c\<lparr>send := (send c)\<lparr>buf := ms\<rparr>\<rparr>)))"
      have b3: "buf (send ?c3) = ms" by (simp add: prims)
      have e3: "payloads (effects ?c3) = payloads (effects c) @ [m]"
        by (simp add: prims payloads_append)
      from drain_fifo [of "length (buf (send ?c3))" ?c3] obtain c4 where
        d: "drain (length (buf (send ?c3))) ?c3 = Some c4"
           "effects c4 = effects ?c3 @ map EvWrite (buf (send ?c3))"
           "buf (send c4) = []" by auto
      from assms Some CaseMessage Cons d(1) have "c' = emit EvWriterClose c4"
        by (simp add: writePump_iter_def chan_recv_def Let_def split: if_splits)
      with d(2,3) b3 e3 Cons show ?thesis
        by (simp add: emit_def payloads_append)
    qed
  next
    case CaseTick
    with assms Some show ?thesis
      by (auto simp: writePump_iter_def Let_def prims payloads_append split: if_splits)
  next
    case CaseShutdown
    with assms Some show ?thesis by (simp add: writePump_iter_def)
  qed
qed

lemma SendBinary_fifo:
  assumes "SendBinary c d k = Inr (None, c')"
  shows "effects c' = effects c \<and> buf (send c') = buf (send c) @ [d]"
  using assms
  by (auto simp: SendBinary_def chan_send_def
           split: option.splits send_case.splits sum.splits if_splits)

section \<open>The pumps\<close>

lemmas read_evals = readPump_def readPump_setup_def readPump_iter_def readPump_log_def
  failing_read_def IsUnexpectedCloseError_def CloseGoingAway_def CloseAbnormalClosure_def
  CloseNormalClosure_def deliver_pong_def


lemmas pump_evals2 = pump_evals writePump_def writePump_exit_def shut_connection_def
  failing_ping_def

lemma logged_append: "logged (xs @ ys) = logged xs @ logged ys"
  by (induction xs rule: logged.induct) simp_all

lemma fold_deliver_pong_logged: "logged (effects (fold deliver_pong ts c)) = logged (effects c)"
proof (induction ts arbitrary: c)
  case Nil
  then show ?case by simp
next
  case (Cons t ts)
  have "logged (effects (deliver_pong t c)) = logged (effects c)"
    by (simp add: deliver_pong_def prims logged_append split: pong_handler.splits)
  with Cons.IH [of "deliver_pong t c"] show ?case by simp
qed

lemma readPump_loop_error:
  assumes "first_error rcs = Some err"
  shows "\<exists>c'. readPump_loop c rcs = Some c' \<and> same_gate c c' \<and>
           logged (effects c') = logged (effects c) @
             (case err of
                CloseError code \<Rightarrow>
                  if code = CloseGoingAway \<or> code = CloseAbnormalClosure then [] else [err]
              | OtherError s \<Rightarrow> [])"
  using assms
proof (induction rcs arbitrary: c)
  case Nil
  then show ?case by simp
next
  case (Cons rc rcs)
  let ?c1 = "fold deliver_pong (rc_pongs rc) c"
  have l1: "logged (effects ?c1) = logged (effects c)" by (rule fold_deliver_pong_logged)
  show ?case
  proof (cases "rc_result rc")
    case (Inl e)
    with Cons.prems have e: "e = err" by simp
    let ?c' = "if IsUnexpectedCloseError err [CloseGoingAway, CloseAbnormalClosure]
               then emit (EvLogPrintf err) ?c1 else ?c1"
    from Inl e have it: "readPump_iter c rc = Return ?c'"
      by (simp add: readPump_iter_def)
    then have lp: "readPump_loop c (rc # rcs) = Some ?c'" by simp
    from it have g: "same_gate c ?c'" by (blast intro: readPump_iter_gate)
    have "logged (effects ?c') = logged (effects c) @
             (case err of
                CloseError code \<Rightarrow>
                  if code = CloseGoingAway \<or> code = CloseAbnormalClosure then [] else [err]
              | OtherError s \<Rightarrow> [])"
      using l1 by (cases err) (simp_all add: IsUnexpectedCloseError_def emit_def logged_append)
    with lp g show ?thesis by blast
  next
    case (Inr m)
    let ?c2 = "if handler ?c1 then emit (EvHandler m) ?c1 else ?c1"
    from Inr have it: "readPump_iter c rc = Continue ?c2"
      by (simp add: readPump_iter_def)
    then have g: "same_gate c ?c2" by (blast intro: readPump_iter_gate)
    have l2: "logged (effects ?c2) = logged (effects c)"
      using l1 by (simp add: emit_def logged_append)
    from Inr Cons.prems have "first_error rcs = Some err" by simp
    from Cons.IH [OF this, of ?c2] obtain c' where
      "readPump_loop ?c2 rcs = Some c'" "same_gate ?c2 c'"
      "logged (effects c') = logged (effects ?c2) @
             (case err of
                CloseError code \<Rightarrow>
                  if code = CloseGoingAway \<or> code = CloseAbnormalClosure then [] else [err]
              | OtherError s \<Rightarrow> [])" by blast
    with it g l2 show ?thesis by (auto intro: same_gate_trans)
  qed
qed

lemma readPump_loop_running: "first_error rcs = None \<Longrightarrow> readPump_loop c rcs = None"
proof (induction rcs arbitrary: c)
  case Nil
  then show ?case by simp
next
  case (Cons rc rcs)
  then show ?case by (cases "rc_result rc") (simp_all add: readPump_iter_def Let_def)
qed

lemma conn_inv_gate: "same_gate c c' \<Longrightarrow> conn_inv c \<Longrightarrow> conn_inv c'"
  by (simp add: same_gate_def conn_inv_def)

lemma readPump_setup_inv: "conn_inv c \<Longrightarrow> conn_inv (readPump_setup c t)"
  by (simp add: readPump_setup_def conn_inv_def prims)



lemma shut_connection_reached: "Close (new_connection fresh_transport True) = Inr shut_connection"
  by (simp add: shut_connection_def evals)

lemma Close_on_pong: "Close c = Inr c' \<Longrightarrow> on_pong (conn c') = on_pong (conn c)"
  by (auto simp: Close_def teardown_def close_chan_def prims split: if_splits)

lemma exec_op_on_pong:
  assumes "on_pong (conn c) = ResetReadDeadline pongWait" "exec_op c x = Inr c'"
  shows "on_pong (conn c') = ResetReadDeadline pongWait"
proof (cases x)
  case OpClose
  with assms show ?thesis by (auto dest: Close_on_pong)
next
  case OpIsClosed
  with assms show ?thesis by (auto split: bool.splits)
next
  case (OpSendBinary d k)
  with assms show ?thesis
    by (auto simp: SendBinary_def chan_send_def dest: Close_on_pong
             split: option.splits send_case.splits sum.splits if_splits)
next
  case (OpReadSetup t)
  with assms show ?thesis by (auto simp: readPump_setup_def prims)
next
  case (OpReadIter rc)
  show ?thesis
  proof (cases "readPump_iter c rc")
    case (Continue c1)
    with assms OpReadIter readPump_iter_gate [of c rc c'] show ?thesis
      by (auto simp: same_gate_def)
  next
    case (Return c1)
    with readPump_iter_gate [of c rc c1] assms OpReadIter show ?thesis
      by (auto simp: same_gate_def dest: Close_on_pong)
  next
    case Blocked
    with assms OpReadIter show ?thesis by auto
  qed
next
  case (OpWriteIter e)
  show ?thesis
  proof (cases "writePump_iter c e")
    case (Continue c1)
    with assms OpWriteIter writePump_iter_gate [of c e c'] show ?thesis
      by (auto simp: same_gate_def)
  next
    case (Return c1)
    with writePump_iter_gate [of c e c1] assms OpWriteIter show ?thesis
      by (auto simp: same_gate_def writePump_exit_def prims)
  next
    case Blocked
    with assms OpWriteIter show ?thesis by auto
  qed
qed

lemma run_on_pong:
  "on_pong (conn c) = ResetReadDeadline pongWait \<Longrightarrow> run c xs = Inr c' \<Longrightarrow>
   on_pong (conn c') = ResetReadDeadline pongWait"
proof (induction xs arbitrary: c)
  case Nil
  then show ?case by simp
next
  case (Cons x xs)
  then show ?case by (auto split: sum.splits dest: exec_op_on_pong)
qed

lemma deliver_pong_deadline:
  "on_pong (conn c) = ResetReadDeadline d \<Longrightarrow>
   read_deadline (conn (deliver_pong t c)) = Some (t + d) \<and>
   on_pong (conn (deliver_pong t c)) = ResetReadDeadline d"
  by (simp add: deliver_pong_def prims)

lemma fold_deliver_pong_on_pong:
  "on_pong (conn (fold deliver_pong ts c)) = on_pong (conn c)"
  using fold_deliver_pong_gate [of c ts] by (simp add: same_gate_def)

lemma fold_deliver_pong_deadline:
  assumes "on_pong (conn c) = ResetReadDeadline d"
  shows "read_deadline (conn (fold deliver_pong (ts @ [t]) c)) = Some (t + d)"
proof -
  have "on_pong (conn (fold deliver_pong ts c)) = ResetReadDeadline d"
    using assms by (simp add: fold_deliver_pong_on_pong)
  from deliver_pong_deadline [OF this, of t] show ?thesis by simp
qed

lemma writePump_loop_gate: "writePump_loop c es = Some c' \<Longrightarrow> same_gate c c'"
proof (induction es arbitrary: c)
  case Nil
  then show ?case by simp
next
  case (Cons e es)
  show ?case
  proof (cases "writePump_iter c e")
    case (Continue c1)
    with Cons.prems have "writePump_loop c1 es = Some c'" by simp
    from Cons.IH [OF this] writePump_iter_gate [of c e c1] Continue show ?thesis
      by (auto intro: same_gate_trans)
  next
    case (Return c1)
    with Cons.prems writePump_iter_gate [of c e c'] show ?thesis by auto
  next
    case Blocked
    with Cons.prems Cons.IH show ?thesis by simp
  qed
qed

section \<open>What the outbound pump writes, what the inbound pump sets\<close>

lemmas fifo_evals = pump_view_def written_def failing_next_writer_def queued_connection_def


lemma queued_connection_reached:
  "run (new_connection fresh_transport True) [OpSendBinary [1] 0, OpSendBinary [2] 0]
     = Inr queued_connection"
  by (simp add: queued_connection_def evals)

lemma writePump_iter_queue_turn:
  assumes "buf (send c) = m # ms"
    "select_pick (writePump_ready c (we_tick e)) (we_pick e) = Some CaseMessage"
    "\<not> we_next_writer_fails e"
  shows "\<exists>c5. writePump_iter c e = (if we_close_fails e then Return c5 else Continue c5) \<and>
           effects c5 = effects c @
             [EvSetWriteDeadline (we_now e + writeWait), EvNextWriter BinaryMessage] @
             map EvWrite (m # ms) @ [EvWriterClose] \<and>
           buf (send c5) = []"
proof -
  let ?c3 = "emit (EvWrite m) (emit (EvNextWriter BinaryMessage)
               (SetWriteDeadline (we_now e + writeWait) (c\<lparr>send := (send c)\<lparr>buf := ms\<rparr>\<rparr>)))"
  have b3: "buf (send ?c3) = ms" by (simp add: prims)
  have e3: "effects ?c3 = effects c @
      [EvSetWriteDeadline (we_now e + writeWait), EvNextWriter BinaryMessage, EvWrite m]"
    by (simp add: prims)
  from drain_fifo [of "length (buf (send ?c3))" ?c3] obtain c4 where
    d: "drain (length (buf (send ?c3))) ?c3 = Some c4"
       "effects c4 = effects ?c3 @ map EvWrite (buf (send ?c3))"
       "buf (send c4) = []" by auto
  from assms d(1) have "writePump_iter c e =
      (if we_close_fails e then Return (emit EvWriterClose c4) else Continue (emit EvWriterClose c4))"
    by (simp add: writePump_iter_def chan_recv_def Let_def)
  moreover from d(2,3) b3 e3 have "effects (emit EvWriterClose c4) = effects c @
             [EvSetWriteDeadline (we_now e + writeWait), EvNextWriter BinaryMessage] @
             map EvWrite (m # ms) @ [EvWriterClose]"
    by (simp add: emit_def)
  moreover from d(3) have "buf (send (emit EvWriterClose c4)) = []" by (simp add: emit_def)
  ultimately show ?thesis by blast
qed

lemma writePump_iter_return:
  assumes "writePump_iter c e = Return c'"
  shows "payloads (effects c') = payloads (effects c) \<or>
         payloads (effects c') = payloads (effects c) @ buf (send c)"
proof (cases "select_pick (writePump_ready c (we_tick e)) (we_pick e)")
  case None
  with assms show ?thesis by (simp add: writePump_iter_def)
next
  case (Some pc)
  show ?thesis
  proof (cases pc)
    case CaseMessage
    show ?thesis
    proof (cases "buf (send c)")
      case Nil
      with assms Some CaseMessage show ?thesis
        by (auto simp: writePump_iter_def chan_recv_def prims payloads_append)
    next
      case (Cons m ms)
      show ?thesis
      proof (cases "we_next_writer_fails e")
        case True
        with assms Some CaseMessage Cons show ?thesis
          by (auto simp: writePump_iter_def chan_recv_def Let_def prims payloads_append)
      next
        case False
        from writePump_iter_queue_turn [OF Cons _ False] Some CaseMessage obtain c5 where
          "writePump_iter c e = (if we_close_fails e then Return c5 else Continue c5)"
          "effects c5 = effects c @
             [EvSetWriteDeadline (we_now e + writeWait), EvNextWriter BinaryMessage] @
             map EvWrite (m # ms) @ [EvWriterClose]" by blast
        with assms Cons show ?thesis
          by (auto simp: payloads_append split: if_splits)
      qed
    qed
  next
    case CaseTick
    with assms Some show ?thesis
      by (auto simp: writePump_iter_def Let_def prims payloads_append split: if_splits)
  next
    case CaseShutdown
    with assms Some show ?thesis by (auto simp: writePump_iter_def)
  qed
qed

lemma payloads_writePump_exit [simp]:
  "payloads (effects (writePump_exit c)) = payloads (effects c)"
  by (simp add: writePump_exit_def prims payloads_append)

lemma buf_writePump_exit [simp]: "buf (send (writePump_exit c)) = buf (send c)"
  by (simp add: writePump_exit_def prims)

lemma pump_run_fifo:
  "pump_run c acts = Some r \<Longrightarrow>
   (case r of
      Running c' \<Rightarrow>
        payloads (effects c') @ buf (send c') = payloads (effects c) @ buf (send c) @ enqueued acts
    | Returned c' \<Rightarrow>
        (\<exists>rest. payloads (effects c') @ rest =
                  payloads (effects c) @ buf (send c) @ enqueued acts))"
proof (induction c acts rule: pump_run.induct)
  case (1 c)
  then show ?case by auto
next
  case (2 c d k as)
  from "2.prems" obtain c1 where s: "SendBinary c d k = Inr (None, c1)"
    and r: "pump_run c1 as = Some r"
    by (auto split: sum.splits prod.splits option.splits)
  from "2.IH" [OF s refl refl r] SendBinary_fifo [OF s] show ?case
    by (cases r) simp_all
next
  case (3 c e as)
  show ?case
  proof (cases "writePump_iter c e")
    case (Continue c1)
    with "3.prems" have r: "pump_run c1 as = Some r" by simp
    from writePump_iter_fifo [OF Continue]
    have f: "payloads (effects c1) @ buf (send c1) @ enqueued as =
             payloads (effects c) @ buf (send c) @ enqueued as"
      by (metis append_assoc)
    from "3.IH"(1) [OF Continue r] f show ?thesis
      by (cases r) simp_all
  next
    case (Return c1)
    with "3.prems" have r: "r = Returned (writePump_exit c1)" by simp
    from writePump_iter_return [OF Return] r show ?thesis by auto
  next
    case Blocked
    with "3.prems" have r: "pump_run c as = Some r" by simp
    from "3.IH"(2) [OF Blocked r] show ?thesis by (cases r) simp_all
  qed
qed

lemma writePump_loop_written:
  "writePump_loop c es = Some c' \<Longrightarrow>
   payloads (effects c') = payloads (effects c) \<or>
   payloads (effects c') = payloads (effects c) @ buf (send c)"
proof (induction es arbitrary: c)
  case Nil
  then show ?case by simp
next
  case (Cons e es)
  show ?case
  proof (cases "writePump_iter c e")
    case (Continue c1)
    with Cons.prems have l: "writePump_loop c1 es = Some c'" by simp
    from writePump_iter_fifo [OF Continue]
    have f: "payloads (effects c1) @ buf (send c1) = payloads (effects c) @ buf (send c)" .
    have "buf (send c1) = [] \<or> (buf (send c1) = buf (send c) \<and> payloads (effects c1) = payloads (effects c))"
    proof (cases "buf (send c1) = []")
      case True
      then show ?thesis by simp
    next
      case False
      have "select_pick (writePump_ready c (we_tick e)) (we_pick e) \<noteq> Some CaseMessage \<or> buf (send c) = []"
      proof (rule ccontr)
        assume "\<not> ?thesis"
        then obtain m ms where b: "buf (send c) = m # ms"
          and p: "select_pick (writePump_ready c (we_tick e)) (we_pick e) = Some CaseMessage"
          by (cases "buf (send c)") auto
        have nf: "\<not> we_next_writer_fails e"
          using Continue b p by (auto simp: writePump_iter_def chan_recv_def Let_def)
        from writePump_iter_queue_turn [OF b p nf] Continue have "buf (send c1) = []"
          by (auto split: if_splits)
        with False show False by simp
      qed
      then have "buf (send c1) = buf (send c)"
        using Continue
        by (auto simp: writePump_iter_def chan_recv_def Let_def prims
                 split: option.splits pump_case.splits if_splits)
      with f show ?thesis by simp
    qed
    with Cons.IH [OF l] f show ?thesis by auto
  next
    case (Return c1)
    with Cons.prems writePump_iter_return [OF Return] show ?thesis by simp
  next
    case Blocked
    with Cons.prems Cons.IH show ?thesis by simp
  qed
qed

lemma deadlines_append: "deadlines (xs @ ys) = deadlines xs @ deadlines ys"
  by (induction xs rule: deadlines.induct) simp_all

lemma fold_deliver_pong_effects:
  assumes "on_pong (conn c) = ResetReadDeadline d"
  shows "effects (fold deliver_pong ts c) = effects c @ map (\<lambda>p. EvSetReadDeadline (p + d)) ts \<and>
         read_deadline (conn (fold deliver_pong ts c)) =
           (if ts = [] then read_deadline (conn c) else Some (last ts + d)) \<and>
         read_limit (conn (fold deliver_pong ts c)) = read_limit (conn c)"
  using assms
proof (induction ts arbitrary: c)
  case Nil
  then show ?case by simp
next
  case (Cons t ts)
  let ?c1 = "deliver_pong t c"
  from Cons.prems have h: "on_pong (conn ?c1) = ResetReadDeadline d"
    and e: "effects ?c1 = effects c @ [EvSetReadDeadline (t + d)]"
    and r: "read_deadline (conn ?c1) = Some (t + d)"
    and l: "read_limit (conn ?c1) = read_limit (conn c)"
    by (simp_all add: deliver_pong_def prims)
  from Cons.IH [OF h] e r l show ?case by simp
qed

lemma deadlines_map [simp]: "deadlines (map (\<lambda>p. EvSetReadDeadline (p + d)) ts) = map (\<lambda>p. p + d) ts"
  by (induction ts) simp_all

lemma readPump_loop_deadlines:
  assumes "on_pong (conn c) = ResetReadDeadline d" "first_error rcs = Some err"
  shows "\<exists>c1 rest. readPump_loop c rcs = Some c1 \<and> effects c1 = effects c @ rest \<and>
           deadlines rest = map (\<lambda>p. p + d) (pongs_seen rcs) \<and>
           read_deadline (conn c1) =
             (if pongs_seen rcs = [] then read_deadline (conn c)
              else Some (last (pongs_seen rcs) + d)) \<and>
           read_limit (conn c1) = read_limit (conn c)"
  using assms
proof (induction rcs arbitrary: c)
  case Nil
  then show ?case by simp
next
  case (Cons rc rcs)
  let ?c1 = "fold deliver_pong (rc_pongs rc) c"
  note f = fold_deliver_pong_effects [OF Cons.prems(1), of "rc_pongs rc"]
  have h1: "on_pong (conn ?c1) = ResetReadDeadline d"
    using Cons.prems(1) by (simp add: fold_deliver_pong_on_pong)
  show ?case
  proof (cases "rc_result rc")
    case (Inl e)
    let ?c' = "if IsUnexpectedCloseError e [CloseGoingAway, CloseAbnormalClosure]
               then emit (EvLogPrintf e) ?c1 else ?c1"
    from Inl have lp: "readPump_loop c (rc # rcs) = Some ?c'"
      by (simp add: readPump_iter_def)
    let ?rest = "map (\<lambda>p. EvSetReadDeadline (p + d)) (rc_pongs rc) @
                 (if IsUnexpectedCloseError e [CloseGoingAway, CloseAbnormalClosure]
                  then [EvLogPrintf e] else [])"
    from f have "effects ?c' = effects c @ ?rest" by (simp add: emit_def)
    moreover have "deadlines ?rest = map (\<lambda>p. p + d) (pongs_seen (rc # rcs))"
      using Inl by (simp add: deadlines_append)
    moreover from f Inl have "read_deadline (conn ?c') =
             (if pongs_seen (rc # rcs) = [] then read_deadline (conn c)
              else Some (last (pongs_seen (rc # rcs)) + d))"
      by (simp add: emit_def)
    moreover from f have "read_limit (conn ?c') = read_limit (conn c)" by (simp add: emit_def)
    ultimately show ?thesis using lp by blast
  next
    case (Inr m)
    let ?c2 = "if handler ?c1 then emit (EvHandler m) ?c1 else ?c1"
    from Inr have it: "readPump_iter c rc = Continue ?c2"
      by (simp add: readPump_iter_def)
    have h2: "on_pong (conn ?c2) = ResetReadDeadline d" using h1 by (simp add: emit_def)
    from Inr Cons.prems(2) have fe: "first_error rcs = Some err" by simp
    from Cons.IH [OF h2 fe] obtain c3 rest where
      r: "readPump_loop ?c2 rcs = Some c3" "effects c3 = effects ?c2 @ rest"
         "deadlines rest = map (\<lambda>p. p + d) (pongs_seen rcs)"
         "read_deadline (conn c3) =
             (if pongs_seen rcs = [] then read_deadline (conn ?c2)
              else Some (last (pongs_seen rcs) + d))"
         "read_limit (conn c3) = read_limit (conn ?c2)" by blast
    let ?rest = "map (\<lambda>p. EvSetReadDeadline (p + d)) (rc_pongs rc) @
                 (if handler ?c1 then [EvHandler m] else []) @ rest"
    from it r(1) have lp: "readPump_loop c (rc # rcs) = Some c3" by simp
    from f r(2) have "effects c3 = effects c @ ?rest" by (simp add: emit_def)
    moreover have "deadlines ?rest = map (\<lambda>p. p + d) (pongs_seen (rc # rcs))"
      using Inr r(3) by (simp add: deadlines_append)
    moreover from f r(4) Inr have "read_deadline (conn c3) =
             (if pongs_seen (rc # rcs) = [] then read_deadline (conn c)
              else Some (last (pongs_seen (rc # rcs)) + d))"
      by (simp add: emit_def)
    moreover from f r(5) have "read_limit (conn c3) = read_limit (conn c)" by (simp add: emit_def)
    ultimately show ?thesis using lp by blast
  qed
qed

lemma Close_effects:
  assumes "conn_inv c" "Close c = Inr c'"
  shows "\<exists>tail. effects c' = effects c @ tail \<and> deadlines tail = [] \<and>
           read_deadline (conn c') = read_deadline (conn c) \<and>
           read_limit (conn c') = read_limit (conn c)"
proof (cases "closeOnce c")
  case True
  with assms show ?thesis by (simp add: Close_done)
next
  case False
  with assms have "effects c' = effects c @ [EvConnClose] \<and>
           read_deadline (conn c') = read_deadline (conn c) \<and>
           read_limit (conn c') = read_limit (conn c)"
    by (auto simp: Close_open prims)
  moreover have "deadlines [EvConnClose] = []" by simp
  ultimately show ?thesis by blast
qed

section \<open>The claims\<close>

subsection \<open>The upgrader\<close>

text \<open>
  C9: the origin check of the upgrader accepts every request: \<open>CheckOrigin\<close> is true
  whatever the request is, so no origin is validated before a connection is upgraded.
\<close>

theorem CheckOrigin_accepts_every_request: "CheckOrigin upgrader r"
  by (simp add: upgrader_def)



subsection \<open>Close\<close>

text \<open>
  C3: on a connection reached from a new one by any calls of callers and turns of the two
  pumps, \<open>Close\<close> returns without a panic, and so do any number of calls in a row, all
  with the state the first call gives. That state is the one before when the
  \<^verbatim>\<open>sync.Once\<close> had fired already (the call is a no-op), and otherwise the one with the
  shutdown signalled, the queue closed and the transport closed. After it the transport
  has been closed by the teardown exactly once: once more than by the exits of the
  outbound pump.
\<close>

theorem Close_exactly_once:
  assumes "run (new_connection tr h) xs = Inr c"
  shows "\<exists>c'. Close c = Inr c' \<and> Close_times (Suc n) c = Inr c' \<and>
           c' = (if closeOnce c then c
                 else conn_Close (c\<lparr>closeOnce := True,
                                     closed := (closed c)\<lparr>is_closed := True\<rparr>,
                                     send := (send c)\<lparr>is_closed := True\<rparr>\<rparr>)) \<and>
           count_list (effects c') EvConnClose = count_list (effects c') EvTickerStop + 1"
proof -
  from assms have ri: "reach_inv c" by (rule run_reach [OF reach_inv_new])
  then obtain c' where c': "Close c = Inr c'" "reach_inv c'" "closeOnce c'"
    using Close_reach by blast
  have "Close_times (Suc n) c = Inr c'"
    using c' by (simp add: Close_times_done)
  moreover have "c' = (if closeOnce c then c
                 else conn_Close (c\<lparr>closeOnce := True,
                                     closed := (closed c)\<lparr>is_closed := True\<rparr>,
                                     send := (send c)\<lparr>is_closed := True\<rparr>\<rparr>))"
    using c'(1) ri by (cases "closeOnce c") (simp_all add: Close_done Close_open reach_inv_def)
  moreover have "count_list (effects c') EvConnClose = count_list (effects c') EvTickerStop + 1"
    using c'(2,3) by (simp add: reach_inv_def close_count_inv_def)
  ultimately show ?thesis using c'(1) by blast
qed

theorem Close_exactly_once_witness:
  "\<exists>c. run (new_connection fresh_transport True) [OpSendBinary [1] 0, OpClose, OpClose] = Inr c \<and>
       Close c = Inr c \<and> Close_times (Suc 2) c = Inr c \<and>
       count_list (effects c) EvConnClose = 1"
proof -
  have "\<exists>c. run (new_connection fresh_transport True) [OpSendBinary [1] 0, OpClose, OpClose] = Inr c \<and> closeOnce c \<and> count_list (effects c) EvTickerStop = 0"
    by (simp add: evals)
  then obtain c where
    r: "run (new_connection fresh_transport True) [OpSendBinary [1] 0, OpClose, OpClose] = Inr c"
    and o: "closeOnce c" and t: "count_list (effects c) EvTickerStop = 0"
    by blast
  from Close_exactly_once [OF r, of 2] obtain c' where
    c': "Close c = Inr c'" "Close_times (Suc 2) c = Inr c'"
        "c' = (if closeOnce c then c
               else conn_Close (c\<lparr>closeOnce := True,
                                   closed := (closed c)\<lparr>is_closed := True\<rparr>,
                                   send := (send c)\<lparr>is_closed := True\<rparr>\<rparr>))"
        "count_list (effects c') EvConnClose = count_list (effects c') EvTickerStop + 1"
    by blast
  from c'(3) o have "c' = c" by simp
  with c' t have "Close c = Inr c \<and> Close_times (Suc 2) c = Inr c \<and>
       count_list (effects c) EvConnClose = 1"
    by simp
  with r show ?thesis by blast
qed


text \<open>
  C10: \<open>IsClosed\<close> is monotone. Once it is true it stays true over every sequence of
  operations of callers and pumps that the program survives: nothing reopens a
  connection.
\<close>

theorem IsClosed_monotone: "IsClosed c \<Longrightarrow> run c xs = Inr c' \<Longrightarrow> IsClosed c'"
proof (induction xs arbitrary: c)
  case Nil
  then show ?case by simp
next
  case (Cons x xs)
  then show ?case by (auto split: sum.splits dest: exec_op_closed)
qed


theorem IsClosed_monotone_witness:
  "\<exists>c c'. Close (new_connection fresh_transport True) = Inr c \<and> IsClosed c \<and>
          run c [OpSendBinary [1] 1, OpClose, OpIsClosed] = Inr c' \<and> IsClosed c'"
proof -
  have "\<exists>c. Close (new_connection fresh_transport True) = Inr c \<and> IsClosed c \<and>
          (\<exists>c'. run c [OpSendBinary [1] 1, OpClose, OpIsClosed] = Inr c')"
    by (simp add: evals)
  then obtain c c' where
    h: "Close (new_connection fresh_transport True) = Inr c" "IsClosed c"
       "run c [OpSendBinary [1] 1, OpClose, OpIsClosed] = Inr c'"
    by blast
  from IsClosed_monotone [OF h(2) h(3)] h show ?thesis by blast
qed

subsection \<open>SendBinary\<close>

text \<open>
  C5: on an open connection whose queue has no room, \<open>SendBinary\<close> returns
  \<open>ErrorBufferFull\<close> whatever the select would choose, and the connection it leaves is
  the one \<open>Close\<close> gives: \<open>IsClosed\<close> is true of it without any call of \<open>Close\<close> by the
  caller.
\<close>

theorem SendBinary_full_queue:
  assumes "conn_inv c" "\<not> IsClosed c" "cap (send c) \<le> length (buf (send c))"
  shows "\<exists>c'. SendBinary c d k = Inr (Some ErrorBufferFull, c') \<and> IsClosed c' \<and>
               Close c = Inr c' \<and> buf (send c') = buf (send c)"
proof -
  from assms have nc: "\<not> closeOnce c" by (simp add: IsClosed_iff)
  with assms have "SendBinary_ready c = []"
    by (simp add: SendBinary_ready_def send_ready_def recv_ready_def conn_inv_def)
  moreover obtain c' where "Close c = Inr c'" "conn_inv c'" "closeOnce c'"
    using Close_inv [OF assms(1)] by blast
  moreover have "buf (send c') = buf (send c)"
    using \<open>Close c = Inr c'\<close> nc assms(1) by (auto simp: Close_open prims)
  ultimately show ?thesis
    by (simp add: SendBinary_def select_pick_def IsClosed_iff)
qed

theorem SendBinary_full_queue_witness:
  "conn_inv full_connection \<and> \<not> IsClosed full_connection \<and>
   (\<exists>c'. SendBinary full_connection [9] 0 = Inr (Some ErrorBufferFull, c') \<and> IsClosed c')"
proof -
  have h: "conn_inv full_connection" "\<not> IsClosed full_connection"
       "cap (send full_connection) \<le> length (buf (send full_connection))"
    by (simp_all add: full_connection_def conn_inv_def evals)
  from SendBinary_full_queue [OF h, of "[9]" 0] h show ?thesis by blast
qed


text \<open>
  C2, at a failing input: on a new connection, after \<open>Close\<close>, a \<open>SendBinary\<close> whose
  select chooses the send case does not return \<open>ErrorConnectionClosed\<close>: it panics with
  a send on the closed queue.
\<close>

theorem SendBinary_after_Close_panics:
  "run (new_connection fresh_transport True) [OpClose, OpSendBinary [1, 2, 3] 0] = Inl SendOnClosedChannel"
  by (simp add: evals)

subsection \<open>The outbound pump\<close>

text \<open>
  C4, as the code has it. Over any interleaving of enqueues that return \<^verbatim>\<open>nil\<close> and
  turns of the outbound pump: while the pump stays in its loop, what it has written
  followed by what is still queued is what was written and queued before followed by the
  enqueued messages, in the order of their enqueueing, so nothing is lost, doubled or
  reordered; once the pump has returned, what it has written is a prefix of that. A turn
  that takes the queue and whose transport calls succeed writes every message queued at
  that moment, in order, through one writer, and empties the queue; and when such a turn is
  the first of \<open>writePump\<close>, the pump has written, when it returns, exactly what was
  queued at its start.
\<close>

theorem outbound_fifo:
  "(pump_run c acts = Some (Running c') \<longrightarrow>
      payloads (effects c') @ buf (send c') =
        payloads (effects c) @ buf (send c) @ enqueued acts) \<and>
   (pump_run c acts = Some (Returned c') \<longrightarrow>
      (\<exists>rest. payloads (effects c') @ rest =
                payloads (effects c) @ buf (send c) @ enqueued acts)) \<and>
   (buf (send c) = m # ms \<and>
    select_pick (writePump_ready c (we_tick e)) (we_pick e) = Some CaseMessage \<and>
    \<not> we_next_writer_fails e \<and> \<not> we_close_fails e \<longrightarrow>
      (\<exists>c1. writePump_iter c e = Continue c1 \<and>
            effects c1 = effects c @
              [EvSetWriteDeadline (we_now e + writeWait), EvNextWriter BinaryMessage] @
              map EvWrite (m # ms) @ [EvWriterClose] \<and>
            buf (send c1) = []) \<and>
      (writePump c (e # es) = Some c'' \<longrightarrow>
         payloads (effects c'') = payloads (effects c) @ m # ms))"
proof (intro conjI impI)
  assume "pump_run c acts = Some (Running c')"
  from pump_run_fifo [OF this]
  show "payloads (effects c') @ buf (send c') =
        payloads (effects c) @ buf (send c) @ enqueued acts" by simp
next
  assume "pump_run c acts = Some (Returned c')"
  from pump_run_fifo [OF this]
  show "\<exists>rest. payloads (effects c') @ rest =
                payloads (effects c) @ buf (send c) @ enqueued acts" by simp
next
  assume a: "buf (send c) = m # ms \<and>
    select_pick (writePump_ready c (we_tick e)) (we_pick e) = Some CaseMessage \<and>
    \<not> we_next_writer_fails e \<and> \<not> we_close_fails e"
  with writePump_iter_queue_turn [of c m ms e]
  show "\<exists>c1. writePump_iter c e = Continue c1 \<and>
            effects c1 = effects c @
              [EvSetWriteDeadline (we_now e + writeWait), EvNextWriter BinaryMessage] @
              map EvWrite (m # ms) @ [EvWriterClose] \<and>
            buf (send c1) = []" by auto
next
  assume a: "buf (send c) = m # ms \<and>
    select_pick (writePump_ready c (we_tick e)) (we_pick e) = Some CaseMessage \<and>
    \<not> we_next_writer_fails e \<and> \<not> we_close_fails e"
    and w: "writePump c (e # es) = Some c''"
  let ?c0 = "emit (EvNewTicker pingPeriod) c"
  have b0: "buf (send ?c0) = m # ms" using a by (simp add: emit_def)
  have p0: "select_pick (writePump_ready ?c0 (we_tick e)) (we_pick e) = Some CaseMessage"
    using a by (simp add: writePump_ready_def emit_def)
  from writePump_iter_queue_turn [OF b0 p0] a obtain c1 where
    c1: "writePump_iter ?c0 e = Continue c1"
        "effects c1 = effects ?c0 @
              [EvSetWriteDeadline (we_now e + writeWait), EvNextWriter BinaryMessage] @
              map EvWrite (m # ms) @ [EvWriterClose]"
        "buf (send c1) = []" by auto
  from w c1(1) obtain c2 where l: "writePump_loop c1 es = Some c2" and c2: "c'' = writePump_exit c2"
    by (auto simp: writePump_def)
  from writePump_loop_written [OF l] c1(3) have "payloads (effects c2) = payloads (effects c1)"
    by auto
  with c1(2) c2 show "payloads (effects c'') = payloads (effects c) @ m # ms"
    by (simp add: emit_def payloads_append)
qed

theorem outbound_fifo_witness:
  "(\<exists>c'. pump_run (new_connection fresh_transport True)
           [Enqueue [1] 0, Enqueue [2] 0, Pump quiet_turn, Enqueue [3] 0] = Some (Running c') \<and>
         payloads (effects c') = [[1], [2]] \<and> buf (send c') = [[3]]) \<and>
   (\<exists>c'. pump_run (new_connection fresh_transport True)
           [Enqueue [1] 0, Pump quiet_turn, Enqueue [2] 0, Pump failing_next_writer]
           = Some (Returned c') \<and>
         payloads (effects c') = [[1]] \<and> buf (send c') = []) \<and>
   (\<exists>c1. writePump_iter queued_connection quiet_turn = Continue c1 \<and>
         effects c1 = [EvSetWriteDeadline 5000000000, EvNextWriter BinaryMessage,
                       EvWrite [1], EvWrite [2], EvWriterClose] \<and> buf (send c1) = []) \<and>
   (\<exists>c''. writePump queued_connection [quiet_turn, failing_ping] = Some c'' \<and>
         payloads (effects c'') = [[1], [2]])"
proof -
  let ?c0 = "new_connection fresh_transport True"
  have "\<exists>c'. pump_run ?c0 [Enqueue [1] 0, Enqueue [2] 0, Pump quiet_turn, Enqueue [3] 0]
           = Some (Running c') \<and> buf (send c') = [[3]]"
    by (simp add: evals pump_evals)
  then obtain ca where ra: "pump_run ?c0
      [Enqueue [1] 0, Enqueue [2] 0, Pump quiet_turn, Enqueue [3] 0] = Some (Running ca)"
    and ba: "buf (send ca) = [[3]]" by blast
  from outbound_fifo [of ?c0 "[Enqueue [1] 0, Enqueue [2] 0, Pump quiet_turn, Enqueue [3] 0]" ca]
    ra ba
  have pa: "payloads (effects ca) = [[1], [2]]"
    by (simp add: new_connection_def make_chan_def)
  have "\<exists>c'. pump_run ?c0
           [Enqueue [1] 0, Pump quiet_turn, Enqueue [2] 0, Pump failing_next_writer]
           = Some (Returned c') \<and> buf (send c') = [] \<and> payloads (effects c') = [[1]]"
    by (simp add: evals pump_evals2 failing_next_writer_def)
  then obtain cb where rb: "pump_run ?c0
      [Enqueue [1] 0, Pump quiet_turn, Enqueue [2] 0, Pump failing_next_writer]
        = Some (Returned cb)"
    and bb: "buf (send cb) = []" and pb: "payloads (effects cb) = [[1]]" by blast
  have h: "buf (send queued_connection) = [1] # [[2]] \<and>
    select_pick (writePump_ready queued_connection (we_tick quiet_turn)) (we_pick quiet_turn)
      = Some CaseMessage \<and>
    \<not> we_next_writer_fails quiet_turn \<and> \<not> we_close_fails quiet_turn"
    by (simp add: queued_connection_def evals pump_evals)
  have "\<exists>c''. writePump queued_connection [quiet_turn, failing_ping] = Some c''"
    by (simp add: queued_connection_def evals pump_evals2)
  then obtain cd where rd: "writePump queued_connection [quiet_turn, failing_ping] = Some cd"
    by blast
  note T = outbound_fifo [where c = queued_connection and m = "[1]" and ms = "[[2]]"
      and e = quiet_turn and es = "[failing_ping]" and c'' = cd and acts = "[]"
      and c' = queued_connection]
  from T [THEN conjunct2, THEN conjunct2, THEN mp, OF h]
  have t3: "\<exists>c1. writePump_iter queued_connection quiet_turn = Continue c1 \<and>
            effects c1 = effects queued_connection @
              [EvSetWriteDeadline (we_now quiet_turn + writeWait), EvNextWriter BinaryMessage] @
              map EvWrite ([1] # [[2]]) @ [EvWriterClose] \<and>
            buf (send c1) = []"
    and t4: "writePump queued_connection (quiet_turn # [failing_ping]) = Some cd \<longrightarrow>
         payloads (effects cd) = payloads (effects queued_connection) @ [1] # [[2]]"
    by simp_all
  from t3 obtain c1 where c1: "writePump_iter queued_connection quiet_turn = Continue c1"
     "effects c1 = effects queued_connection @
              [EvSetWriteDeadline (we_now quiet_turn + writeWait), EvNextWriter BinaryMessage] @
              map EvWrite ([1] # [[2]]) @ [EvWriterClose]"
     "buf (send c1) = []" by blast
  from t4 rd have pd: "payloads (effects cd) = payloads (effects queued_connection) @ [1] # [[2]]"
    by simp
  from c1(2) have e1: "effects c1 = [EvSetWriteDeadline 5000000000, EvNextWriter BinaryMessage,
                       EvWrite [1], EvWrite [2], EvWriterClose]"
    by (simp add: queued_connection_def new_connection_def quiet_turn_def writeWait_def
                  time_Second_def)
  from pd have pd': "payloads (effects cd) = [[1], [2]]"
    by (simp add: queued_connection_def new_connection_def)
  from ra ba pa rb bb pb c1(1,3) e1 rd pd' show ?thesis by blast
qed


text \<open>
  C4, as stated, fails: two messages are enqueued on a new connection, open and far from
  full, and both calls return \<^verbatim>\<open>nil\<close>; \<^verbatim>\<open>NextWriter\<close> fails in the next turn of the pump;
  the pump returns having written nothing, the first message has left the queue and the
  second stays in a queue that no pump reads.
\<close>

theorem outbound_loss_counterexample:
  "map_option pump_view
     (pump_run (new_connection fresh_transport True)
        [Enqueue [1] 0, Enqueue [2] 0, Pump failing_next_writer]) = Some (True, [], [[2]]) \<and>
   map_option written (writePump queued_connection [failing_next_writer]) = Some []"
  by (simp add: fifo_evals pump_evals2 evals)


text \<open>
  C8: when the select of the outbound pump takes the queue case and the queue is closed
  and empty, the turn sets the write deadline, writes a close frame and leaves the loop.
  And whenever the pump returns, the last two things it has done are stopping the ticker
  and closing the transport.
\<close>

theorem writePump_termination:
  "(recv_ready (send c) \<and> buf (send c) = [] \<and>
    select_pick (writePump_ready c (we_tick e)) (we_pick e) = Some CaseMessage \<longrightarrow>
      writePump_iter c e =
        Return (emit (EvWriteMessage CloseMessage [])
                  (SetWriteDeadline (we_now e + writeWait) c))) \<and>
   (writePump c es = Some c' \<longrightarrow>
      conn_closed (conn c') \<and> (\<exists>pre. effects c' = pre @ [EvTickerStop, EvConnClose]))"
proof (intro conjI impI)
  assume a: "recv_ready (send c) \<and> buf (send c) = [] \<and>
    select_pick (writePump_ready c (we_tick e)) (we_pick e) = Some CaseMessage"
  then show "writePump_iter c e =
        Return (emit (EvWriteMessage CloseMessage [])
                  (SetWriteDeadline (we_now e + writeWait) c))"
    by (simp add: writePump_iter_def chan_recv_def)
next
  assume "writePump c es = Some c'"
  then obtain c1 where "c' = writePump_exit c1" by (auto simp: writePump_def)
  then show "conn_closed (conn c')" by (simp add: writePump_exit_def prims)
next
  assume "writePump c es = Some c'"
  then obtain c1 where "c' = writePump_exit c1" by (auto simp: writePump_def)
  then have "effects c' = effects c1 @ [EvTickerStop, EvConnClose]"
    by (simp add: writePump_exit_def prims)
  then show "\<exists>pre. effects c' = pre @ [EvTickerStop, EvConnClose]" by blast
qed

theorem writePump_termination_witness:
  "recv_ready (send shut_connection) \<and> buf (send shut_connection) = [] \<and>
   select_pick (writePump_ready shut_connection (we_tick quiet_turn)) (we_pick quiet_turn)
     = Some CaseMessage \<and>
   (\<exists>c1. writePump_iter shut_connection quiet_turn = Return c1 \<and>
      effects c1 = [EvConnClose, EvSetWriteDeadline 5000000000, EvWriteMessage CloseMessage []]) \<and>
   (\<exists>c'. writePump shut_connection [quiet_turn] = Some c' \<and> conn_closed (conn c') \<and>
      effects c' = [EvConnClose, EvNewTicker 9000000000, EvSetWriteDeadline 5000000000,
                    EvWriteMessage CloseMessage [], EvTickerStop, EvConnClose])"
proof -
  have h: "recv_ready (send shut_connection) \<and> buf (send shut_connection) = [] \<and>
   select_pick (writePump_ready shut_connection (we_tick quiet_turn)) (we_pick quiet_turn)
     = Some CaseMessage"
    by (simp add: shut_connection_def evals pump_evals)
  have w: "\<exists>c'. writePump shut_connection [quiet_turn] = Some c' \<and>
      effects c' = [EvConnClose, EvNewTicker 9000000000, EvSetWriteDeadline 5000000000,
                    EvWriteMessage CloseMessage [], EvTickerStop, EvConnClose]"
    by (simp add: pump_evals2 evals writeWait_def pingPeriod_def pongWait_def time_Second_def)
  then obtain c' where w': "writePump shut_connection [quiet_turn] = Some c'"
     "effects c' = [EvConnClose, EvNewTicker 9000000000, EvSetWriteDeadline 5000000000,
                    EvWriteMessage CloseMessage [], EvTickerStop, EvConnClose]" by blast
  from writePump_termination [of shut_connection quiet_turn "[quiet_turn]" c'] h w'
  have "writePump_iter shut_connection quiet_turn =
        Return (emit (EvWriteMessage CloseMessage [])
                  (SetWriteDeadline (we_now quiet_turn + writeWait) shut_connection))"
    and "conn_closed (conn c')" by simp_all
  moreover have "effects (emit (EvWriteMessage CloseMessage [])
                  (SetWriteDeadline (we_now quiet_turn + writeWait) shut_connection)) =
         [EvConnClose, EvSetWriteDeadline 5000000000, EvWriteMessage CloseMessage []]"
    by (simp add: prims shut_connection_def quiet_turn_def writeWait_def time_Second_def)
  ultimately show ?thesis using h w' by simp
qed


subsection \<open>The inbound pump\<close>






text \<open>
  C7: when a read fails at last, \<open>readPump\<close> has returned, and the first things it did
  were to limit the message size, to set the read deadline to the clock plus \<open>pongWait\<close>
  and to install the pong handler; after these, the read deadlines it set are exactly one
  for each pong frame met in its reads, the clock at that frame plus \<open>pongWait\<close>, in
  order, and the deadline it leaves is that of the last pong frame (of the start when there
  was none). And while the pump runs, whatever callers and pumps have done since its
  setup, a pong frame met at time \<open>t'\<close> sets the read deadline to \<open>t'\<close> plus \<open>pongWait\<close>.
\<close>

theorem readPump_deadline_refresh:
  "(conn_inv c \<and> first_error rcs = Some err \<longrightarrow>
      (\<exists>c' rest. readPump c t rcs = Some (Inr c') \<and>
         effects c' = effects c @
           [EvSetReadLimit maxMessageSize, EvSetReadDeadline (t + pongWait), EvSetPongHandler] @
           rest \<and>
         deadlines rest = map (\<lambda>p. p + pongWait) (pongs_seen rcs) \<and>
         read_deadline (conn c') = Some (last (t # pongs_seen rcs) + pongWait) \<and>
         read_limit (conn c') = Some maxMessageSize)) \<and>
   (run (readPump_setup c t) xs = Inr c'' \<longrightarrow>
      read_deadline (conn (readPump_setup c t)) = Some (t + pongWait) \<and>
      read_deadline (conn (deliver_pong t' c'')) = Some (t' + pongWait) \<and>
      read_deadline (conn (fold deliver_pong (ts @ [t']) c'')) = Some (t' + pongWait))"
proof (intro conjI impI)
  assume a: "conn_inv c \<and> first_error rcs = Some err"
  let ?c0 = "readPump_setup c t"
  have s: "on_pong (conn ?c0) = ResetReadDeadline pongWait"
    and e0: "effects ?c0 = effects c @
           [EvSetReadLimit maxMessageSize, EvSetReadDeadline (t + pongWait), EvSetPongHandler]"
    and d0: "read_deadline (conn ?c0) = Some (t + pongWait)"
    and l0: "read_limit (conn ?c0) = Some maxMessageSize"
    by (simp_all add: readPump_setup_def prims)
  from a readPump_loop_deadlines [OF s, of rcs err] obtain c1 rest where
    r: "readPump_loop ?c0 rcs = Some c1" "effects c1 = effects ?c0 @ rest"
       "deadlines rest = map (\<lambda>p. p + pongWait) (pongs_seen rcs)"
       "read_deadline (conn c1) =
             (if pongs_seen rcs = [] then read_deadline (conn ?c0)
              else Some (last (pongs_seen rcs) + pongWait))"
       "read_limit (conn c1) = read_limit (conn ?c0)" by blast
  from a readPump_loop_error [of rcs err ?c0] r(1) have g: "same_gate ?c0 c1" by auto
  from a have "conn_inv ?c0" by (simp add: readPump_setup_inv)
  with g have i1: "conn_inv c1" by (blast intro: conn_inv_gate)
  from Close_inv [OF i1] obtain c' where c': "Close c1 = Inr c'" by blast
  from Close_effects [OF i1 c'] obtain tail where
    t: "effects c' = effects c1 @ tail" "deadlines tail = []"
       "read_deadline (conn c') = read_deadline (conn c1)"
       "read_limit (conn c') = read_limit (conn c1)" by blast
  have "readPump c t rcs = Some (Inr c')" using r(1) c' by (simp add: readPump_def)
  moreover have "effects c' = effects c @
           [EvSetReadLimit maxMessageSize, EvSetReadDeadline (t + pongWait), EvSetPongHandler] @
           (rest @ tail)"
    using t(1) r(2) e0 by simp
  moreover have "deadlines (rest @ tail) = map (\<lambda>p. p + pongWait) (pongs_seen rcs)"
    using r(3) t(2) by (simp add: deadlines_append)
  moreover have "read_deadline (conn c') = Some (last (t # pongs_seen rcs) + pongWait)"
    using t(3) r(4) d0 by simp
  moreover have "read_limit (conn c') = Some maxMessageSize"
    using t(4) r(5) l0 by simp
  ultimately show "\<exists>c' rest. readPump c t rcs = Some (Inr c') \<and>
         effects c' = effects c @
           [EvSetReadLimit maxMessageSize, EvSetReadDeadline (t + pongWait), EvSetPongHandler] @
           rest \<and>
         deadlines rest = map (\<lambda>p. p + pongWait) (pongs_seen rcs) \<and>
         read_deadline (conn c') = Some (last (t # pongs_seen rcs) + pongWait) \<and>
         read_limit (conn c') = Some maxMessageSize" by blast
next
  show "read_deadline (conn (readPump_setup c t)) = Some (t + pongWait)"
    by (simp add: readPump_setup_def prims)
next
  assume r: "run (readPump_setup c t) xs = Inr c''"
  have s: "on_pong (conn (readPump_setup c t)) = ResetReadDeadline pongWait"
    by (simp add: readPump_setup_def prims)
  from run_on_pong [OF s r] have h: "on_pong (conn c'') = ResetReadDeadline pongWait" .
  from deliver_pong_deadline [OF h, of t']
  show "read_deadline (conn (deliver_pong t' c'')) = Some (t' + pongWait)" by simp
next
  assume r: "run (readPump_setup c t) xs = Inr c''"
  have s: "on_pong (conn (readPump_setup c t)) = ResetReadDeadline pongWait"
    by (simp add: readPump_setup_def prims)
  from run_on_pong [OF s r] have h: "on_pong (conn c'') = ResetReadDeadline pongWait" .
  from fold_deliver_pong_deadline [OF h, of ts t']
  show "read_deadline (conn (fold deliver_pong (ts @ [t']) c'')) = Some (t' + pongWait)" .
qed

theorem readPump_deadline_refresh_witness:
  "conn_inv (new_connection fresh_transport True) \<and>
   first_error pong_reads = Some (OtherError ''i/o timeout'') \<and>
   (\<exists>c'. readPump (new_connection fresh_transport True) 100 pong_reads = Some (Inr c') \<and>
      effects c' =
        [EvSetReadLimit 8192, EvSetReadDeadline 10000000100, EvSetPongHandler,
         EvSetReadDeadline 10000000200, EvSetReadDeadline 10000000300, EvHandler [1],
         EvSetReadDeadline 10000000400, EvConnClose] \<and>
      read_deadline (conn c') = Some 10000000400) \<and>
   (\<exists>c''. run (readPump_setup (new_connection fresh_transport True) 100)
          [OpReadIter \<lparr>rc_pongs = [200], rc_result = Inr [1]\<rparr>, OpSendBinary [2] 0] = Inr c'' \<and>
        read_deadline (conn (deliver_pong 300 c'')) = Some 10000000300)"
proof -
  let ?c0 = "new_connection fresh_transport True"
  have h: "conn_inv ?c0 \<and> first_error pong_reads = Some (OtherError ''i/o timeout'')"
    by (simp add: conn_inv_new pong_reads_def)
  have "\<exists>c''. run (readPump_setup ?c0 100)
          [OpReadIter \<lparr>rc_pongs = [200], rc_result = Inr [1]\<rparr>, OpSendBinary [2] 0] = Inr c''"
    by (simp add: read_evals evals)
  then obtain c'' where r: "run (readPump_setup ?c0 100)
          [OpReadIter \<lparr>rc_pongs = [200], rc_result = Inr [1]\<rparr>, OpSendBinary [2] 0] = Inr c''"
    by blast
  note T = readPump_deadline_refresh [where c = ?c0 and rcs = pong_reads
      and err = "OtherError ''i/o timeout''" and t = 100 and xs =
        "[OpReadIter \<lparr>rc_pongs = [200], rc_result = Inr [1]\<rparr>, OpSendBinary [2] 0]"
      and c'' = c'' and t' = 300 and ts = "[]"]
  from T [THEN conjunct1, THEN mp, OF h] obtain c' rest where
    c': "readPump ?c0 100 pong_reads = Some (Inr c')"
        "read_deadline (conn c') = Some (last (100 # pongs_seen pong_reads) + pongWait)"
    by blast
  have e: "\<exists>c. readPump ?c0 100 pong_reads = Some (Inr c) \<and> effects c =
        [EvSetReadLimit 8192, EvSetReadDeadline 10000000100, EvSetPongHandler,
         EvSetReadDeadline 10000000200, EvSetReadDeadline 10000000300, EvHandler [1],
         EvSetReadDeadline 10000000400, EvConnClose]"
    by (simp add: pong_reads_def read_evals evals pongWait_def time_Second_def
                  maxMessageSize_def)
  with c'(1) have e': "effects c' =
        [EvSetReadLimit 8192, EvSetReadDeadline 10000000100, EvSetPongHandler,
         EvSetReadDeadline 10000000200, EvSetReadDeadline 10000000300, EvHandler [1],
         EvSetReadDeadline 10000000400, EvConnClose]" by auto
  from c'(2) have d': "read_deadline (conn c') = Some 10000000400"
    by (simp add: pong_reads_def pongWait_def time_Second_def)
  from T [THEN conjunct2, THEN mp, OF r]
  have "read_deadline (conn (deliver_pong 300 c'')) = Some 10000000300"
    by (simp add: pongWait_def time_Second_def)
  with h c'(1) e' d' r show ?thesis by blast
qed


subsection \<open>Upgrade\<close>

text \<open>
  C1, what the code does instead: \<open>Upgrade\<close> defers the two pumps, so when it returns
  after a successful handshake the outbound pump has run to its end, then the inbound pump
  has run to its end on the connection the outbound pump left, and the connection handed
  to the caller is closed, its transport too. While a pump has not ended, \<open>Upgrade\<close> has
  not returned.
\<close>

theorem Upgrade_waits_for_pumps:
  assumes "Upgrade (Inr tr) h es t rcs = Some r"
  shows "\<exists>c1 c. writePump (new_connection tr h) es = Some c1 \<and>
                readPump c1 t rcs = Some (Inr c) \<and>
                r = Inr (Inr c) \<and> IsClosed c \<and> conn_closed (conn c)"
proof -
  from assms obtain c1 where w: "writePump (new_connection tr h) es = Some c1"
    by (auto simp: Upgrade_def split: option.splits)
  then obtain c0 where l: "writePump_loop (emit (EvNewTicker pingPeriod) (new_connection tr h)) es = Some c0"
    and c1: "c1 = writePump_exit c0" by (auto simp: writePump_def)
  have "conn_inv (emit (EvNewTicker pingPeriod) (new_connection tr h))"
    using conn_inv_new [of tr h] by (simp add: conn_inv_def emit_def)
  with writePump_loop_gate [OF l] have "conn_inv c0" by (blast intro: conn_inv_gate)
  with c1 have i1: "conn_inv c1" by (simp add: writePump_exit_def conn_inv_def prims)
  from assms w obtain rr where rp: "readPump c1 t rcs = Some rr"
    by (auto simp: Upgrade_def split: option.splits)
  then obtain c2 where l2: "readPump_loop (readPump_setup c1 t) rcs = Some c2" and rr: "rr = Close c2"
    by (auto simp: readPump_def)
  have "first_error rcs \<noteq> None"
    using l2 readPump_loop_running [of rcs "readPump_setup c1 t"] by auto
  then obtain err where fe: "first_error rcs = Some err" by auto
  from readPump_loop_error [OF fe, of "readPump_setup c1 t"] l2
  have g2: "same_gate (readPump_setup c1 t) c2" by auto
  have cc1: "conn_closed (conn c1)" using c1 by (simp add: writePump_exit_def prims)
  then have "conn_closed (conn (readPump_setup c1 t))" by (simp add: readPump_setup_def prims)
  with g2 have cc2: "conn_closed (conn c2)" by (simp add: same_gate_def)
  from i1 have "conn_inv (readPump_setup c1 t)" by (rule readPump_setup_inv)
  with g2 have i2: "conn_inv c2" by (blast intro: conn_inv_gate)
  from Close_inv [OF i2] obtain c where c: "Close c2 = Inr c" "conn_inv c" "closeOnce c" by blast
  have "conn_closed (conn c)"
    using c(1) i2 cc2 by (cases "closeOnce c2") (auto simp: Close_open Close_done prims)
  moreover from c have "IsClosed c" by (simp add: IsClosed_iff)
  moreover from rp rr c(1) have rp': "readPump c1 t rcs = Some (Inr c)" by simp
  moreover from assms w rp' have "r = Inr (Inr c)" by (simp add: Upgrade_def)
  ultimately show ?thesis using w by blast
qed

theorem Upgrade_waits_for_pumps_witness:
  "Upgrade (Inr fresh_transport) True [] 0 [] = None \<and>
   (\<exists>c. Upgrade (Inr fresh_transport) True [failing_ping] 0
           [failing_read (OtherError ''use of closed network connection'')] = Some (Inr (Inr c)) \<and>
        IsClosed c \<and> conn_closed (conn c))"
proof -
  have n: "Upgrade (Inr fresh_transport) True [] 0 [] = None"
    by (simp add: Upgrade_def writePump_def)
  have "\<exists>r. Upgrade (Inr fresh_transport) True [failing_ping] 0
           [failing_read (OtherError ''use of closed network connection'')] = Some r"
    by (simp add: Upgrade_def pump_evals2 read_evals evals)
  then obtain r where r: "Upgrade (Inr fresh_transport) True [failing_ping] 0
           [failing_read (OtherError ''use of closed network connection'')] = Some r" by blast
  from Upgrade_waits_for_pumps [OF r] r n show ?thesis by auto
qed


end
